theory Spec2Isabelle
  imports Main "HOL-Library.Char_ord" "HOL-Library.List_Lexorder"
begin

section \<open>Strings\<close>

text \<open>
  URLs, keywords and page bodies are Python \<open>str\<close> values; they are modelled as
  \<open>string\<close>, a list of characters with the code points U+0000 to U+00FF (a string
  with a character beyond U+00FF is outside the model). \<open>str.lower()\<close> maps every
  capital letter of that range to its small letter, 32 code points further: \<open>A\<close> to
  \<open>Z\<close>, and U+00C0 to U+00DE without the multiplication sign U+00D7.
\<close>

definition lower_char :: "char \<Rightarrow> char" where
  "lower_char c =
     (let n = (of_char c :: nat) in
      if (65 \<le> n \<and> n \<le> 90) \<or> (192 \<le> n \<and> n \<le> 222 \<and> n \<noteq> 215)
      then char_of (n + 32) else c)"

definition lower :: "string \<Rightarrow> string" where
  "lower s = map lower_char s"

text \<open>Python's \<open>k in s\<close> on strings: \<open>k\<close> occurs in \<open>s\<close> as a contiguous run.\<close>

fun starts_with :: "string \<Rightarrow> string \<Rightarrow> bool" where
  "starts_with [] s = True"
| "starts_with (k # ks) [] = False"
| "starts_with (k # ks) (c # cs) = (k = c \<and> starts_with ks cs)"

fun str_in :: "string \<Rightarrow> string \<Rightarrow> bool" where
  "str_in k [] = (k = [])"
| "str_in k (c # cs) = (starts_with k (c # cs) \<or> str_in k cs)"

text \<open>\<open>any(p(x) for x in xs)\<close>.\<close>

fun any :: "('a \<Rightarrow> bool) \<Rightarrow> 'a list \<Rightarrow> bool" where
  "any p [] = False"
| "any p (x # xs) = (p x \<or> any p xs)"

text \<open>
  A Python set is kept as a list without duplicates, and \<open>s.add(x)\<close> appends a new
  element. The order of the list stands for the order in which Python iterates over
  the set, which is arbitrary: the links of a page come in the order in which the
  environment's parser gives them, and the element that \<open>pop()\<close> takes is chosen by the
  environment.
\<close>

definition set_add :: "'a \<Rightarrow> 'a list \<Rightarrow> 'a list" where
  "set_add x xs = (if x \<in> set xs then xs else xs @ [x])"

section \<open>Calls that can raise\<close>

text \<open>
  A call either returns a value or raises a Python \<open>Exception\<close>.
\<close>

datatype 'a result = Returns 'a | Raises

section \<open>The standard library's URL parser\<close>

text \<open>
  \<open>urllib.parse.urlparse\<close> is used by the crawler to read a URL's \<open>netloc\<close> and
  \<open>path\<close>. The model follows the library's steps: strip leading control characters
  and spaces, drop tabs and newlines, split off a scheme, a netloc after \<open>//\<close>, the
  fragment after the first \<open>#\<close>, the query after the first \<open>?\<close>, and the parameters
  after the first \<open>;\<close> of the last path segment. The library raises \<open>ValueError\<close> when
  the netloc has one square bracket without the other, and when the text between the
  brackets is neither an IPv6 address nor an IPvFuture address.
\<close>

record parse_result =
  scheme :: string
  netloc :: string
  path :: string
  params :: string
  query :: string
  fragment :: string

definition c0_or_space :: "char \<Rightarrow> bool" where
  "c0_or_space c = ((of_char c :: nat) \<le> 32)"

definition unsafe_byte :: "char \<Rightarrow> bool" where
  "unsafe_byte c = (c = CHR 0x09 \<or> c = CHR 0x0D \<or> c = CHR 0x0A)"

definition scheme_char :: "char \<Rightarrow> bool" where
  "scheme_char c =
     (let n = (of_char c :: nat) in
        (97 \<le> n \<and> n \<le> 122) \<or> (65 \<le> n \<and> n \<le> 90) \<or> (48 \<le> n \<and> n \<le> 57)
        \<or> c = CHR ''+'' \<or> c = CHR ''-'' \<or> c = CHR ''.'')"

definition ascii_alpha :: "char \<Rightarrow> bool" where
  "ascii_alpha c =
     (let n = (of_char c :: nat) in (97 \<le> n \<and> n \<le> 122) \<or> (65 \<le> n \<and> n \<le> 90))"

definition uses_params :: "string list" where
  "uses_params = ['''', ''ftp'', ''hdl'', ''prospero'', ''http'', ''imap'', ''https'',
     ''shttp'', ''rtsp'', ''rtsps'', ''rtspu'', ''sip'', ''sips'', ''mms'', ''sftp'', ''tel'']"

text \<open>\<open>s.split(c, 1)\<close> when \<open>c\<close> occurs in \<open>s\<close>, and \<open>(s, '')\<close> otherwise.\<close>

definition split_first :: "char \<Rightarrow> string \<Rightarrow> string \<times> string" where
  "split_first c s = (takeWhile (\<lambda>x. x \<noteq> c) s, drop 1 (dropWhile (\<lambda>x. x \<noteq> c) s))"

definition split_scheme :: "string \<Rightarrow> string \<times> string" where
  "split_scheme url =
     (let pre = takeWhile (\<lambda>x. x \<noteq> CHR '':'') url in
      if CHR '':'' \<in> set url \<and> pre \<noteq> [] \<and> ascii_alpha (hd pre) \<and> list_all scheme_char pre
      then (lower pre, drop (length pre + 1) url)
      else ([], url))"

definition splitnetloc :: "string \<Rightarrow> string \<times> string" where
  "splitnetloc url =
     (if take 2 url = ''//''
      then (let rest = drop 2 url;
                delim = (\<lambda>x. x = CHR ''/'' \<or> x = CHR ''?'' \<or> x = CHR ''#'')
            in (takeWhile (\<lambda>x. \<not> delim x) rest, dropWhile (\<lambda>x. \<not> delim x) rest))
      else ([], url))"

definition splitparams :: "string \<Rightarrow> string \<times> string" where
  "splitparams url =
     (let last_seg = rev (takeWhile (\<lambda>x. x \<noteq> CHR ''/'') (rev url));
          front = rev (dropWhile (\<lambda>x. x \<noteq> CHR ''/'') (rev url))
      in if CHR '';'' \<in> set last_seg
         then (front @ takeWhile (\<lambda>x. x \<noteq> CHR '';'') last_seg,
               drop 1 (dropWhile (\<lambda>x. x \<noteq> CHR '';'') last_seg))
         else (url, []))"

text \<open>\<open>s.split(c)\<close>: the parts of \<open>s\<close> between the occurrences of \<open>c\<close>.\<close>

fun split_on :: "char \<Rightarrow> string \<Rightarrow> string list" where
  "split_on c [] = [[]]"
| "split_on c (x # xs) =
     (if x = c then [] # split_on c xs
      else (case split_on c xs of [] \<Rightarrow> [[x]] | p # ps \<Rightarrow> (x # p) # ps))"

definition decimal_digit :: "char \<Rightarrow> bool" where
  "decimal_digit c = (let n = (of_char c :: nat) in 48 \<le> n \<and> n \<le> 57)"

definition hex_digit :: "char \<Rightarrow> bool" where
  "hex_digit c =
     (let n = (of_char c :: nat) in
        (48 \<le> n \<and> n \<le> 57) \<or> (65 \<le> n \<and> n \<le> 70) \<or> (97 \<le> n \<and> n \<le> 102))"

text \<open>\<open>int(s, 10)\<close> for a string of decimal digits.\<close>

definition decimal_value :: "string \<Rightarrow> nat" where
  "decimal_value s = foldl (\<lambda>n c. 10 * n + ((of_char c :: nat) - 48)) 0 s"

text \<open>
  The address parsers of \<open>ipaddress\<close>, as far as they decide whether \<open>ValueError\<close> is
  raised: each function is true when the library accepts the string.
  \<open>IPv4Address._parse_octet\<close> wants one to three decimal digits without a leading
  zero and a value up to 255; \<open>IPv4Address\<close> wants four octets.
\<close>

definition parse_octet :: "string \<Rightarrow> bool" where
  "parse_octet octet_str =
     (octet_str \<noteq> [] \<and> list_all decimal_digit octet_str \<and> length octet_str \<le> 3
      \<and> \<not> (octet_str \<noteq> ''0'' \<and> hd octet_str = CHR ''0'')
      \<and> decimal_value octet_str \<le> 255)"

definition ipv4_address :: "string \<Rightarrow> bool" where
  "ipv4_address addr_str =
     (CHR ''/'' \<notin> set addr_str \<and> addr_str \<noteq> []
      \<and> (let octets = split_on (CHR ''.'') addr_str
         in length octets = 4 \<and> list_all parse_octet octets))"

text \<open>\<open>IPv6Address._parse_hextet\<close>: one to four hexadecimal digits.\<close>

definition parse_hextet :: "string \<Rightarrow> bool" where
  "parse_hextet hextet_str =
     (list_all hex_digit hextet_str \<and> length hextet_str \<le> 4 \<and> hextet_str \<noteq> [])"

text \<open>
  \<open>IPv6Address._ip_int_from_string\<close>: at least three parts between colons; an IPv4
  suffix in the last part is replaced by its two hextets (here \<open>0\<close> and \<open>0\<close>, since only
  their validity matters); at most nine parts; at most one empty part strictly inside,
  which is the \<open>::\<close>; an empty first or last part only next to the \<open>::\<close>; with a \<open>::\<close> at
  most seven other parts, without it exactly eight; every other part is a hextet.
\<close>

definition ipv6_from_string :: "string \<Rightarrow> bool" where
  "ipv6_from_string ip_str =
     (ip_str \<noteq> []
      \<and> (let parts0 = split_on (CHR '':'') ip_str in
         3 \<le> length parts0
         \<and> (if CHR ''.'' \<in> set (last parts0) then ipv4_address (last parts0) else True)
         \<and> (let parts = (if CHR ''.'' \<in> set (last parts0)
                          then butlast parts0 @ [''0'', ''0''] else parts0);
                n = length parts;
                skips = filter (\<lambda>i. parts ! i = []) [1 ..< n - 1]
            in n \<le> 9
               \<and> (case skips of
                    [] \<Rightarrow> n = 8 \<and> hd parts \<noteq> [] \<and> last parts \<noteq> [] \<and> list_all parse_hextet parts
                  | [skip_index] \<Rightarrow>
                      (let parts_hi = (if hd parts = [] then skip_index - 1 else skip_index);
                           parts_lo = (if last parts = [] then n - skip_index - 1 - 1
                                       else n - skip_index - 1)
                       in \<not> (hd parts = [] \<and> parts_hi \<noteq> 0)
                          \<and> \<not> (last parts = [] \<and> parts_lo \<noteq> 0)
                          \<and> parts_hi + parts_lo \<le> 7
                          \<and> list_all parse_hextet (take parts_hi parts)
                          \<and> list_all parse_hextet (drop (n - parts_lo) parts))
                  | _ \<Rightarrow> False))))"

text \<open>\<open>IPv6Address\<close>: no slash, an optional scope id after \<open>%\<close> that is not empty.\<close>

definition ipv6_address :: "string \<Rightarrow> bool" where
  "ipv6_address addr_str =
     (CHR ''/'' \<notin> set addr_str
      \<and> (let addr = takeWhile (\<lambda>x. x \<noteq> CHR ''%'') addr_str;
             sep_scope = dropWhile (\<lambda>x. x \<noteq> CHR ''%'') addr_str
         in (sep_scope = [] \<or> (tl sep_scope \<noteq> [] \<and> CHR ''%'' \<notin> set (tl sep_scope)))
            \<and> ipv6_from_string addr))"

text \<open>
  \<open>_check_bracketed_host\<close>: a host that starts with \<open>v\<close> has to match the regular
  expression \<open>\Av[a-fA-F0-9]+\..+\Z\<close> (the dot matches every character but a newline);
  any other host has to be an address that \<open>ipaddress.ip_address\<close> accepts and that is
  not an IPv4 address.
\<close>

definition ipvfuture :: "string \<Rightarrow> bool" where
  "ipvfuture h =
     (case h of
        [] \<Rightarrow> False
      | c # t \<Rightarrow>
          c = CHR ''v'' \<and> takeWhile hex_digit t \<noteq> []
          \<and> (case dropWhile hex_digit t of
                [] \<Rightarrow> False
              | d # r \<Rightarrow> d = CHR ''.'' \<and> r \<noteq> [] \<and> CHR 0x0A \<notin> set r))"

definition check_bracketed_host :: "string \<Rightarrow> bool" where
  "check_bracketed_host h =
     (if starts_with ''v'' h then ipvfuture h
      else \<not> ipv4_address h \<and> ipv6_address h)"

text \<open>
  The checks of \<open>urlsplit\<close> on the netloc: true when no \<open>ValueError\<close> is raised. The
  bracketed host is \<open>netloc.partition('[')[2].partition(']')[0]\<close>. (\<open>_checknetloc\<close>, which
  normalizes a netloc that is not ASCII, never raises on the characters of the model:
  none of them has one of \<open>/?#@:\<close> in its compatibility decomposition.)
\<close>

definition netloc_ok :: "string \<Rightarrow> bool" where
  "netloc_ok nl =
     (if (CHR ''['' \<in> set nl \<and> CHR '']'' \<notin> set nl) \<or> (CHR '']'' \<in> set nl \<and> CHR ''['' \<notin> set nl)
      then False
      else if CHR ''['' \<in> set nl \<and> CHR '']'' \<in> set nl
      then check_bracketed_host
             (takeWhile (\<lambda>x. x \<noteq> CHR '']'') (drop 1 (dropWhile (\<lambda>x. x \<noteq> CHR ''['') nl)))
      else True)"

definition urlparse :: "string \<Rightarrow> parse_result result" where
  "urlparse url0 =
     (let url1 = filter (\<lambda>c. \<not> unsafe_byte c) (dropWhile c0_or_space url0);
          (sch, url2) = split_scheme url1;
          (nl, url3) = splitnetloc url2;
          (url4, frag) = split_first (CHR ''#'') url3;
          (url5, qry) = split_first (CHR ''?'') url4;
          (pth, prm) = (if sch \<in> set uses_params \<and> CHR '';'' \<in> set url5
                        then splitparams url5 else (url5, []))
      in if \<not> netloc_ok nl then Raises
         else Returns \<lparr> scheme = sch, netloc = nl, path = pth, params = prm, query = qry,
                fragment = frag \<rparr>)"

text \<open>
  The \<open>hostname\<close> attribute of a parse result: the part of the netloc after the last
  \<open>@\<close>, without the port, lower-cased (an empty string stands for \<open>None\<close>).
\<close>

definition hostname :: "parse_result \<Rightarrow> string" where
  "hostname r =
     (let hostinfo = rev (takeWhile (\<lambda>x. x \<noteq> CHR ''@'') (rev (netloc r)));
          host = (if CHR ''['' \<in> set hostinfo
                  then takeWhile (\<lambda>x. x \<noteq> CHR '']'')
                         (drop 1 (dropWhile (\<lambda>x. x \<noteq> CHR ''['') hostinfo))
                  else takeWhile (\<lambda>x. x \<noteq> CHR '':'') hostinfo);
          (h, zone) = (takeWhile (\<lambda>x. x \<noteq> CHR ''%'') host,
                       dropWhile (\<lambda>x. x \<noteq> CHR ''%'') host)
      in lower h @ zone)"

section \<open>Product URL heuristics\<close>

text \<open>\<open>_is_product_url\<close>: a keyword occurs in the lower-cased URL.\<close>

definition is_product_url :: "string \<Rightarrow> string list \<Rightarrow> bool" where
  "is_product_url url keywords =
     (let url_lower = lower url in any (\<lambda>keyword. str_in keyword url_lower) keywords)"

text \<open>
  \<open>_looks_like_product_url\<close>: a keyword occurs in the lower-cased path; the
  \<open>ValueError\<close> of \<open>urlparse\<close> is not caught.
\<close>

definition looks_like_product_url :: "string \<Rightarrow> string list \<Rightarrow> bool result" where
  "looks_like_product_url url keywords =
     (case urlparse url of
        Raises \<Rightarrow> Raises
      | Returns parsed \<Rightarrow> (let p = lower (path parsed) in Returns (any (\<lambda>k. str_in k p) keywords)))"

section \<open>The external collaborators\<close>

text \<open>
  The HTTP response of the ScrapingBee client: \<open>content\<close> is
  \<open>response.content.decode('utf-8')\<close>, which is \<open>None\<close> when the bytes are not UTF-8 and
  the decoding raises; \<open>resp_text\<close> is \<open>response.text\<close>, which never raises.
\<close>

record response =
  status_code :: int
  content :: "string option"
  resp_text :: string

text \<open>\<open>response.ok\<close>: the status is not a 4xx or 5xx error.\<close>

definition ok :: "response \<Rightarrow> bool" where
  "ok r = (\<not> (400 \<le> status_code r \<and> status_code r < 600))"

text \<open>
  Everything the crawler's code does not determine is a field of the environment:
  \<^item> \<open>client_get n url attempt\<close>: what \<open>client.get(url, params)\<close> does when it is called
    for \<open>url\<close> on the given attempt at time \<open>n\<close> of the run (the number of events, or of
    steps, before the call: the answer is free to change from call to call);
  \<^item> \<open>find_anchors html\<close>: the \<open>href\<close> values of the anchor tags BeautifulSoup finds;
  \<^item> \<open>canonical_url base href\<close> and \<open>is_same_domain url domains\<close>: the two helpers of
    \<open>utils\<close>, whose source is not part of the crawler module (\<open>None\<close> and the empty string
    are the falsy results of \<open>canonical_url\<close>);
  \<^item> \<open>api_key\<close>: \<open>os.getenv('SCRAPINGBEE_API_KEY')\<close>;
  \<^item> \<open>set_pop k\<close>: which element the \<open>k\<close>-th \<open>to_visit.pop()\<close> takes out of the set.
\<close>

record env =
  client_get :: "nat \<Rightarrow> string \<Rightarrow> nat \<Rightarrow> response result"
  find_anchors :: "string \<Rightarrow> string list result"
  canonical_url :: "string \<Rightarrow> string \<Rightarrow> string option result"
  is_same_domain :: "string \<Rightarrow> string list \<Rightarrow> bool"
  api_key :: "string option"
  set_pop :: "nat \<Rightarrow> nat"

text \<open>The arguments of a crawl (the \<open>timeout\<close> is real time and is left out).\<close>

record config =
  base_url :: string
  allowed_domains :: "string list"
  product_url_keywords :: "string list"
  concurrency :: int
  max_pages :: int

text \<open>
  What a run does is recorded as a list of events, newest first: a URL is added to the
  visited (or seen) set, a request for a URL is handed to the client on a given attempt,
  the links of a page have been extracted.
\<close>

datatype event = Seen string | Request string nat | Links string "string list"

fun seen_before_request :: "event list \<Rightarrow> bool" where
  "seen_before_request [] = True"
| "seen_before_request (Request u k # es) = (Seen u \<in> set es \<and> seen_before_request es)"
| "seen_before_request (e # es) = seen_before_request es"

text \<open>The URLs for which a page fetch was started: the first attempt of each.\<close>

fun fetched :: "event list \<Rightarrow> string list" where
  "fetched [] = []"
| "fetched (Request u k # es) = (if k = 0 then u # fetched es else fetched es)"
| "fetched (e # es) = fetched es"

fun requested :: "event list \<Rightarrow> string list" where
  "requested [] = []"
| "requested (Request u k # es) = u # requested es"
| "requested (e # es) = requested es"

section \<open>Link extraction\<close>

text \<open>
  \<open>_extract_links(base_url, html)\<close>: every \<open>href\<close> is made canonical against the given
  base; falsy results are dropped; any exception gives the empty set.
\<close>

fun canonical_all :: "env \<Rightarrow> string \<Rightarrow> string list \<Rightarrow> string list \<Rightarrow> string list result" where
  "canonical_all env base [] links = Returns links"
| "canonical_all env base (href # hrefs) links =
     (case canonical_url env base href of
        Raises \<Rightarrow> Raises
      | Returns None \<Rightarrow> canonical_all env base hrefs links
      | Returns (Some url) \<Rightarrow>
          canonical_all env base hrefs (if url \<noteq> [] then set_add url links else links))"

definition extract_links :: "env \<Rightarrow> string \<Rightarrow> string \<Rightarrow> string list" where
  "extract_links env base html =
     (case find_anchors env html of
        Raises \<Rightarrow> []
      | Returns anchor_tags \<Rightarrow>
          (case canonical_all env base anchor_tags [] of
             Raises \<Rightarrow> []
           | Returns links \<Rightarrow> links))"

section \<open>The sequential crawl: \<open>crawl_with_scrapingbee\<close>\<close>

record crawl_state =
  visited :: "string list"
  to_visit :: "string list"
  product_urls :: "string list"
  events :: "event list"

definition max_retries :: nat where
  "max_retries = 3"

text \<open>
  The retry loop \<open>for attempt in range(max_retries)\<close> of one page: the third argument is
  the attempt, the fourth the number of attempts left, the fifth the variable
  \<open>response\<close> (initially \<open>None\<close>). A 503 goes on to the next attempt (after a sleep when
  it is not the last one), an exception too unless it is the last attempt, any other
  response ends the loop.
\<close>

fun retry_loop ::
  "env \<Rightarrow> string \<Rightarrow> nat \<Rightarrow> nat \<Rightarrow> response option \<Rightarrow> event list \<Rightarrow> response option \<times> event list"
where
  "retry_loop env url attempt 0 resp es = (resp, es)"
| "retry_loop env url attempt (Suc n) resp es =
     (case client_get env (length es) url attempt of
        Raises \<Rightarrow>
          if attempt = max_retries - 1 then (resp, Request url attempt # es)
          else retry_loop env url (Suc attempt) n resp (Request url attempt # es)
      | Returns r \<Rightarrow>
          if ok r then (Some r, Request url attempt # es)
          else if status_code r = 503 then
            (if attempt < max_retries - 1
             then retry_loop env url (Suc attempt) n (Some r) (Request url attempt # es)
             else retry_loop env url (Suc attempt) n (Some r) (Request url attempt # es))
          else (Some r, Request url attempt # es))"

text \<open>\<open>any(domain in parsed.netloc for domain in allowed_domains)\<close>.\<close>

definition netloc_allowed :: "string list \<Rightarrow> parse_result \<Rightarrow> bool" where
  "netloc_allowed domains parsed = any (\<lambda>domain. str_in domain (netloc parsed)) domains"

text \<open>
  The loop that filters the links to the allowed domains; it raises when \<open>urlparse\<close>
  raises on a link.
\<close>

fun filter_links :: "string list \<Rightarrow> string list \<Rightarrow> string list \<Rightarrow> string list result" where
  "filter_links domains [] filtered_links = Returns filtered_links"
| "filter_links domains (link # links) filtered_links =
     (case urlparse link of
        Raises \<Rightarrow> Raises
      | Returns parsed \<Rightarrow>
          filter_links domains links
            (if netloc_allowed domains parsed then set_add link filtered_links
             else filtered_links))"

text \<open>The loop over the filtered links: product URLs are recorded, new links queued.\<close>

definition add_link :: "config \<Rightarrow> string \<Rightarrow> crawl_state \<Rightarrow> crawl_state" where
  "add_link cfg link st =
     (let st1 = (if is_product_url link (product_url_keywords cfg)
                 then (if link \<notin> set (product_urls st)
                       then st\<lparr>product_urls := product_urls st @ [link]\<rparr> else st)
                 else st)
      in if int (length (visited st1)) < max_pages cfg \<and> link \<notin> set (visited st1)
            \<and> link \<notin> set (to_visit st1)
         then st1\<lparr>to_visit := to_visit st1 @ [link]\<rparr> else st1)"

fun add_links :: "config \<Rightarrow> string list \<Rightarrow> crawl_state \<Rightarrow> crawl_state" where
  "add_links cfg [] st = st"
| "add_links cfg (link # links) st = add_links cfg links (add_link cfg link st)"

text \<open>
  The body of the \<open>try\<close> for one page. It raises when every attempt raised (\<open>response\<close>
  is still \<open>None\<close> and \<open>response.ok\<close> is an \<open>AttributeError\<close>), when the content is not
  UTF-8, and when the filter loop raises, before any link of the page is recorded. The
  links are resolved against \<open>base_url\<close>.
\<close>

definition page_body :: "env \<Rightarrow> config \<Rightarrow> string \<Rightarrow> crawl_state \<Rightarrow> unit result \<times> crawl_state" where
  "page_body env cfg url st =
     (case retry_loop env url 0 max_retries None (events st) of (resp, es) \<Rightarrow>
        (case resp of
           None \<Rightarrow> (Raises, st\<lparr>events := es\<rparr>)
         | Some r \<Rightarrow>
             if ok r then
               (case content r of
                  None \<Rightarrow> (Raises, st\<lparr>events := es\<rparr>)
                | Some html \<Rightarrow>
                    (let links = extract_links env (base_url cfg) html
                     in case filter_links (allowed_domains cfg) links [] of
                          Raises \<Rightarrow> (Raises, st\<lparr>events := Links url links # es\<rparr>)
                        | Returns filtered_links \<Rightarrow>
                            (Returns (),
                             add_links cfg filtered_links
                               (st\<lparr>events := Links url links # es\<rparr>))))
             else (Returns (), st\<lparr>events := es\<rparr>)))"

text \<open>The \<open>try\<close> with its \<open>except Exception\<close>, which prints and goes on.\<close>

definition visit_page :: "env \<Rightarrow> config \<Rightarrow> string \<Rightarrow> crawl_state \<Rightarrow> crawl_state" where
  "visit_page env cfg url st =
     (case page_body env cfg url st of
        (Returns u, st') \<Rightarrow> st'
      | (Raises, st') \<Rightarrow> st')"

definition pop_url :: "env \<Rightarrow> nat \<Rightarrow> string list \<Rightarrow> string" where
  "pop_url env k urls = urls ! (set_pop env k mod length urls)"

definition mark_visited :: "string \<Rightarrow> crawl_state \<Rightarrow> crawl_state" where
  "mark_visited url st = st\<lparr>visited := visited st @ [url], events := Seen url # events st\<rparr>"

lemma add_link_visited: "visited (add_link cfg link st) = visited st"
  by (simp add: add_link_def Let_def)

lemma add_links_visited: "visited (add_links cfg links st) = visited st"
  by (induction links arbitrary: st) (simp_all add: add_link_visited)

lemma page_body_visited: "visited (snd (page_body env cfg url st)) = visited st"
  by (simp add: page_body_def add_links_visited Let_def
        split: prod.splits option.splits result.splits)

lemma visit_page_visited: "visited (visit_page env cfg url st) = visited st"
  using page_body_visited [of env cfg url st]
  by (auto simp: visit_page_def split: prod.splits result.splits)

text \<open>
  The main loop \<open>while to_visit and len(visited) < max_pages\<close>; \<open>k\<close> counts the
  iterations.
\<close>

function crawl_loop :: "env \<Rightarrow> config \<Rightarrow> nat \<Rightarrow> crawl_state \<Rightarrow> crawl_state" where
  "crawl_loop env cfg k st =
     (if to_visit st \<noteq> [] \<and> int (length (visited st)) < max_pages cfg
      then (if pop_url env k (to_visit st) \<notin> set (visited st)
            then crawl_loop env cfg (Suc k)
                   (visit_page env cfg (pop_url env k (to_visit st))
                      (mark_visited (pop_url env k (to_visit st))
                         (st\<lparr>to_visit := removeAll (pop_url env k (to_visit st)) (to_visit st)\<rparr>)))
            else crawl_loop env cfg (Suc k)
                   (st\<lparr>to_visit := removeAll (pop_url env k (to_visit st)) (to_visit st)\<rparr>))
      else st)"
  by pat_completeness auto

lemma pop_url_mem: "urls \<noteq> [] \<Longrightarrow> pop_url env k urls \<in> set urls"
  by (simp add: pop_url_def)

lemma length_removeAll_mem: "x \<in> set xs \<Longrightarrow> length (removeAll x xs) < length xs"
  by (induction xs) (auto simp: less_Suc_eq_le length_removeAll_less_eq)

termination crawl_loop
proof (relation "measures [\<lambda>(env, cfg, k, st). nat (max_pages cfg - int (length (visited st))),
                           \<lambda>(env, cfg, k, st). length (to_visit st)]", goal_cases)
  case 1
  show ?case by simp
next
  case (2 env cfg k st)
  then show ?case by (simp add: visit_page_visited mark_visited_def)
next
  case (3 env cfg k st)
  then show ?case by (simp add: length_removeAll_mem pop_url_mem)
qed

text \<open>The sets before the loop: nothing visited, the base URL to visit, no product.\<close>

definition init_state :: "config \<Rightarrow> crawl_state" where
  "init_state cfg =
     \<lparr>visited = [], to_visit = [base_url cfg], product_urls = [], events = []\<rparr>"

definition crawl_with_scrapingbee :: "env \<Rightarrow> config \<Rightarrow> crawl_state" where
  "crawl_with_scrapingbee env cfg = crawl_loop env cfg 0 (init_state cfg)"

section \<open>The worker-pool crawl: \<open>crawl\<close> over an \<open>asyncio.Queue\<close>\<close>

text \<open>Python's truth value of an optional string: \<open>None\<close> and \<open>''\<close> are falsy.\<close>

definition falsy :: "string option \<Rightarrow> bool" where
  "falsy v = (v = None \<or> v = Some [])"

text \<open>
  \<open>fetch(client, url, timeout)\<close>: without an API key it returns \<open>None\<close> and no request
  is made; otherwise one request is made, and the text of a 200 response is returned,
  \<open>None\<close> for any other status and for an exception.
\<close>

definition fetch_result :: "env \<Rightarrow> nat \<Rightarrow> string \<Rightarrow> string option" where
  "fetch_result env n url =
     (case client_get env n url 0 of
        Raises \<Rightarrow> None
      | Returns response \<Rightarrow>
          if status_code response = 200 then Some (resp_text response) else None)"

definition fetch :: "env \<Rightarrow> string \<Rightarrow> event list \<Rightarrow> string option \<times> event list" where
  "fetch env url es =
     (if falsy (api_key env) then (None, es)
      else (fetch_result env (length es) url, Request url 0 # es))"

text \<open>
  The coroutines run on one event loop and are interleaved at their suspension points
  only; a request that was made always ends, with a response or with an exception. A
  worker is suspended in \<open>to_visit.get()\<close> (\<open>Waiting\<close>), in the acquisition of the
  semaphore (\<open>Blocked\<close>), or in the request of \<open>fetch\<close> (\<open>Fetching\<close>); or it has left its
  loop (\<open>Exited\<close>); or its task has ended with an exception (\<open>Crashed\<close>). The shared state
  is the \<open>seen\<close> set, the queue with its counter of unfinished tasks, the candidate set
  and the semaphore.
\<close>

datatype worker = Waiting | Blocked string | Fetching string | Exited | Crashed

record pool_state =
  seen :: "string list"
  queue :: "string list"
  unfinished_tasks :: nat
  product_candidates :: "string list"
  workers :: "worker list"
  permits :: nat
  trace :: "event list"
  clock :: nat

text \<open>
  \<open>to_visit.task_done()\<close>. (The queue raises \<open>ValueError\<close> when it is called more often
  than items were put; every call of the worker follows a \<open>get\<close>, and the counter of a
  run is never zero at a call.)
\<close>

definition task_done :: "pool_state \<Rightarrow> pool_state" where
  "task_done s = s\<lparr>unfinished_tasks := unfinished_tasks s - 1\<rparr>"

text \<open>
  The body of \<open>for link in _extract_links(url, html)\<close>. It raises when
  \<open>_looks_like_product_url\<close> raises, which no \<open>try\<close> of the worker contains.
\<close>

definition put_link :: "env \<Rightarrow> config \<Rightarrow> string \<Rightarrow> pool_state \<Rightarrow> pool_state result" where
  "put_link env cfg link s =
     (if link \<notin> set (seen s) \<and> is_same_domain env link (allowed_domains cfg)
      then (case looks_like_product_url link (product_url_keywords cfg) of
              Raises \<Rightarrow> Raises
            | Returns product \<Rightarrow>
                (let s1 = (if product
                           then s\<lparr>product_candidates := set_add link (product_candidates s)\<rparr>
                           else s)
                 in Returns (s1\<lparr>queue := queue s1 @ [link],
                                unfinished_tasks := unfinished_tasks s1 + 1\<rparr>)))
      else Returns s)"

text \<open>The loop: the links before the one that raises have been put into the queue.\<close>

fun put_links :: "env \<Rightarrow> config \<Rightarrow> string list \<Rightarrow> pool_state \<Rightarrow> unit result \<times> pool_state" where
  "put_links env cfg [] s = (Returns (), s)"
| "put_links env cfg (link # links) s =
     (case put_link env cfg link s of
        Raises \<Rightarrow> (Raises, s)
      | Returns s' \<Rightarrow> put_links env cfg links s')"

text \<open>
  The end of an iteration: the task is marked done, and the worker leaves its loop when
  the seen set has reached the budget.
\<close>

definition end_iteration :: "config \<Rightarrow> nat \<Rightarrow> pool_state \<Rightarrow> pool_state" where
  "end_iteration cfg w s =
     (let s2 = task_done s
      in s2\<lparr>workers := (workers s2)
              [w := (if max_pages cfg \<le> int (length (seen s2)) then Exited else Waiting)]\<rparr>)"

text \<open>
  What worker \<open>w\<close> does after \<open>fetch\<close> has returned \<open>html\<close> for \<open>url\<close>: the links are
  resolved against the page's own URL and put into the queue, then the iteration ends.
  When the loop over the links raises, the exception ends the worker's task: the
  worker never calls \<open>task_done\<close> for the URL it holds.
\<close>

definition after_fetch ::
  "env \<Rightarrow> config \<Rightarrow> nat \<Rightarrow> string \<Rightarrow> string option \<Rightarrow> pool_state \<Rightarrow> pool_state" where
  "after_fetch env cfg w url html s =
     (case html of
        None \<Rightarrow> end_iteration cfg w s
      | Some h \<Rightarrow>
          if h = [] then end_iteration cfg w s
          else (case put_links env cfg (extract_links env url h)
                       (s\<lparr>trace := Links url (extract_links env url h) # trace s\<rparr>) of
                  (Raises, s1) \<Rightarrow> s1\<lparr>workers := (workers s1)[w := Crashed]\<rparr>
                | (Returns u, s1) \<Rightarrow> end_iteration cfg w s1))"

text \<open>
  \<open>async with sem: html = await fetch(...)\<close>: the worker waits when the semaphore has
  no permit; without an API key \<open>fetch\<close> returns at once and the semaphore is released
  again; otherwise the request is made and the worker is suspended on it.
\<close>

definition start_fetch :: "env \<Rightarrow> config \<Rightarrow> nat \<Rightarrow> string \<Rightarrow> pool_state \<Rightarrow> pool_state" where
  "start_fetch env cfg w url s =
     (if permits s = 0 then s\<lparr>workers := (workers s)[w := Blocked url]\<rparr>
      else if falsy (api_key env) then after_fetch env cfg w url None s
      else s\<lparr>permits := permits s - 1, trace := Request url 0 # trace s,
             workers := (workers s)[w := Fetching url]\<rparr>)"

text \<open>
  The head of the worker's loop, once \<open>to_visit.get()\<close> has an item: a URL already seen
  is skipped; a new one is added to \<open>seen\<close>, and skipped when it is not in the allowed
  domains.
\<close>

definition dequeue :: "env \<Rightarrow> config \<Rightarrow> nat \<Rightarrow> pool_state \<Rightarrow> pool_state option" where
  "dequeue env cfg w s =
     (case queue s of
        [] \<Rightarrow> None
      | url # rest \<Rightarrow>
          if url \<in> set (seen s) then Some (task_done (s\<lparr>queue := rest\<rparr>))
          else if \<not> is_same_domain env url (allowed_domains cfg)
          then Some (task_done
                 (s\<lparr>queue := rest, seen := seen s @ [url], trace := Seen url # trace s\<rparr>))
          else Some (start_fetch env cfg w url
                 (s\<lparr>queue := rest, seen := seen s @ [url], trace := Seen url # trace s\<rparr>)))"

text \<open>
  One step of worker \<open>w\<close>, from one suspension point to the next; \<open>None\<close> when the worker
  cannot run.
\<close>

definition worker_step :: "env \<Rightarrow> config \<Rightarrow> nat \<Rightarrow> pool_state \<Rightarrow> pool_state option" where
  "worker_step env cfg w s =
     (if w < length (workers s)
      then (case workers s ! w of
              Waiting \<Rightarrow> dequeue env cfg w (s\<lparr>clock := Suc (clock s)\<rparr>)
            | Blocked url \<Rightarrow>
                if permits s = 0 then None
                else Some (start_fetch env cfg w url (s\<lparr>clock := Suc (clock s)\<rparr>))
            | Fetching url \<Rightarrow>
                Some (after_fetch env cfg w url (fetch_result env (clock s) url)
                        (s\<lparr>clock := Suc (clock s), permits := permits s + 1\<rparr>))
            | Exited \<Rightarrow> None
            | Crashed \<Rightarrow> None)
      else None)"

text \<open>A schedule names the worker that runs next, step after step.\<close>

fun exec :: "env \<Rightarrow> config \<Rightarrow> nat list \<Rightarrow> pool_state \<Rightarrow> pool_state option" where
  "exec env cfg [] s = Some s"
| "exec env cfg (w # ws) s =
     (case worker_step env cfg w s of None \<Rightarrow> None | Some s' \<Rightarrow> exec env cfg ws s')"

text \<open>
  The state in which the workers are created: the seed is in the queue, as one
  unfinished task.
\<close>

definition init_pool :: "config \<Rightarrow> pool_state" where
  "init_pool cfg =
     \<lparr> seen = [], queue = [base_url cfg], unfinished_tasks = 1, product_candidates = [],
       workers = replicate (nat (concurrency cfg)) Waiting, permits = nat (concurrency cfg),
       trace = [], clock = 0 \<rparr>"

text \<open>
  \<open>crawl\<close> under a schedule. A negative concurrency makes \<open>asyncio.Semaphore\<close> raise
  \<open>ValueError\<close> before any worker exists. Otherwise \<open>to_visit.join()\<close> returns when no
  task is unfinished, and the candidates are returned; the result is \<open>None\<close> when the
  schedule cannot be run or leaves the coordinator waiting in \<open>join\<close>. (The exception
  of a crashed worker stays in its task; nothing awaits the task.)
\<close>

definition crawl :: "env \<Rightarrow> config \<Rightarrow> nat list \<Rightarrow> string list option result" where
  "crawl env cfg sched =
     (if concurrency cfg < 0 then Raises
      else Returns
        (case exec env cfg sched (init_pool cfg) of
           None \<Rightarrow> None
         | Some s \<Rightarrow> if unfinished_tasks s = 0 then Some (product_candidates s) else None))"

section \<open>The batched crawl and \<open>_crawl_page\<close>\<close>

text \<open>The loop that collects the product URLs among the filtered links.\<close>

fun collect_products :: "string list \<Rightarrow> string list \<Rightarrow> string list \<Rightarrow> string list" where
  "collect_products kws [] products = products"
| "collect_products kws (link # links) products =
     collect_products kws links
       (if is_product_url link kws then set_add link products else products)"

text \<open>
  The body of the \<open>try\<close> of \<open>_crawl_page\<close>: a missing API key raises \<open>ValueError\<close>, a
  status other than 200 raises, and so does the filter loop on a link that \<open>urlparse\<close>
  rejects; the links are resolved against \<open>base_url\<close>.
\<close>

definition crawl_page_body ::
  "env \<Rightarrow> config \<Rightarrow> string \<Rightarrow> event list \<Rightarrow> (string list \<times> string list) result \<times> event list"
where
  "crawl_page_body env cfg url es =
     (if falsy (api_key env) then (Raises, es)
      else (case client_get env (length es) url 0 of
              Raises \<Rightarrow> (Raises, Request url 0 # es)
            | Returns response \<Rightarrow>
                if status_code response \<noteq> 200 then (Raises, Request url 0 # es)
                else (let html = resp_text response;
                          links = extract_links env (base_url cfg) html
                      in case filter_links (allowed_domains cfg) links [] of
                           Raises \<Rightarrow> (Raises, Links url links # Request url 0 # es)
                         | Returns filtered_links \<Rightarrow>
                             (let products =
                                    collect_products (product_url_keywords cfg) filtered_links []
                              in (Returns (filtered_links, products),
                                  Links url links # Request url 0 # es)))))"

text \<open>\<open>_crawl_page\<close>: its \<open>except Exception\<close> prints and returns two empty sets.\<close>

definition crawl_page ::
  "env \<Rightarrow> config \<Rightarrow> string \<Rightarrow> event list \<Rightarrow> (string list \<times> string list) \<times> event list"
where
  "crawl_page env cfg url es =
     (case crawl_page_body env cfg url es of
        (Returns r, es') \<Rightarrow> (r, es')
      | (Raises, es') \<Rightarrow> (([], []), es'))"

text \<open>\<open>xs[:n]\<close> for a Python integer \<open>n\<close>: a negative \<open>n\<close> counts from the end.\<close>

definition py_take :: "int \<Rightarrow> 'a list \<Rightarrow> 'a list" where
  "py_take n xs = (if 0 \<le> n then take (nat n) xs else take (length xs - nat (- n)) xs)"

text \<open>
  The first \<open>crawl\<close> of the module (the later definition of the same name replaces it
  when the module is loaded). One round takes a batch out of \<open>to_visit\<close> (the first
  elements of the list stand for \<open>list(to_visit)[:concurrency]\<close>), marks its URLs as
  visited, runs \<open>_crawl_page\<close> on each (\<open>asyncio.gather\<close>; the pages do not share state,
  and they are run here in the order of the batch), then adds the products and the new
  links.
\<close>

fun mark_batch :: "string list \<Rightarrow> crawl_state \<Rightarrow> string list \<times> crawl_state" where
  "mark_batch [] st = ([], st)"
| "mark_batch (url # batch) st =
     (if url \<notin> set (visited st)
      then (case mark_batch batch (mark_visited url st) of (tasks, st') \<Rightarrow> (url # tasks, st'))
      else mark_batch batch st)"

fun gather :: "env \<Rightarrow> config \<Rightarrow> string list \<Rightarrow> event list \<Rightarrow>
    (string list \<times> string list) list \<times> event list" where
  "gather env cfg [] es = ([], es)"
| "gather env cfg (url # tasks) es =
     (case crawl_page env cfg url es of (r, es') \<Rightarrow>
        (case gather env cfg tasks es' of (rs, es'') \<Rightarrow> (r # rs, es'')))"

fun add_new_links :: "config \<Rightarrow> string list \<Rightarrow> crawl_state \<Rightarrow> crawl_state" where
  "add_new_links cfg [] st = st"
| "add_new_links cfg (link # links) st =
     add_new_links cfg links
       (if int (length (visited st)) < max_pages cfg \<and> link \<notin> set (visited st)
        then st\<lparr>to_visit := set_add link (to_visit st)\<rparr> else st)"

fun add_results :: "config \<Rightarrow> (string list \<times> string list) list \<Rightarrow> crawl_state \<Rightarrow> crawl_state" where
  "add_results cfg [] st = st"
| "add_results cfg ((links, products) # results) st =
     add_results cfg results
       (add_new_links cfg links
          (st\<lparr>product_urls := fold set_add products (product_urls st)\<rparr>))"

definition batch_round :: "env \<Rightarrow> config \<Rightarrow> crawl_state \<Rightarrow> crawl_state" where
  "batch_round env cfg st =
     (let batch = py_take (concurrency cfg) (to_visit st);
          st1 = st\<lparr>to_visit := filter (\<lambda>u. u \<notin> set batch) (to_visit st)\<rparr>
      in case mark_batch batch st1 of (tasks, st2) \<Rightarrow>
           (case gather env cfg tasks (events st2) of (results, es) \<Rightarrow>
              add_results cfg results (st2\<lparr>events := es\<rparr>)))"

text \<open>
  The loop \<open>while to_visit and len(visited) < max_pages\<close> runs for ever when the batch
  is empty (a concurrency of zero), so it is given fuel: \<open>None\<close> when the fuel runs out.
\<close>

fun crawl_batched_loop :: "nat \<Rightarrow> env \<Rightarrow> config \<Rightarrow> crawl_state \<Rightarrow> crawl_state option" where
  "crawl_batched_loop 0 env cfg st = None"
| "crawl_batched_loop (Suc n) env cfg st =
     (if to_visit st \<noteq> [] \<and> int (length (visited st)) < max_pages cfg
      then crawl_batched_loop n env cfg (batch_round env cfg st)
      else Some st)"

definition crawl_batched :: "nat \<Rightarrow> env \<Rightarrow> config \<Rightarrow> crawl_state option" where
  "crawl_batched fuel env cfg = crawl_batched_loop fuel env cfg (init_state cfg)"

section \<open>The command-line program: \<open>fetch_html_with_scrapingbee\<close> and \<open>run\<close>\<close>

text \<open>
  One pass through the \<open>try\<close> of \<open>fetch_html_with_scrapingbee\<close> returns the page,
  continues with the next attempt (a 503 that is not the last attempt), or raises: the
  client raised, the content is not UTF-8, the 503 came on the last attempt, or the
  status is any other error.
\<close>

datatype try_outcome = Return string | Continue | Raise

definition fetch_html_try :: "int \<Rightarrow> nat \<Rightarrow> response result \<Rightarrow> try_outcome" where
  "fetch_html_try max_tries attempt got =
     (case got of
        Raises \<Rightarrow> Raise
      | Returns response \<Rightarrow>
          if ok response
          then (case content response of None \<Rightarrow> Raise | Some html \<Rightarrow> Return html)
          else if status_code response = 503
          then (if int attempt < max_tries - 1 then Continue else Raise)
          else Raise)"

text \<open>
  The loop \<open>for attempt in range(max_retries)\<close> with its \<open>except Exception\<close>, which
  raises on the last attempt and otherwise sleeps and lets the loop go on. The result
  is \<open>Returns None\<close> when the loop ends without a \<open>return\<close>.
\<close>

fun fetch_html_loop ::
  "env \<Rightarrow> string \<Rightarrow> int \<Rightarrow> nat \<Rightarrow> nat \<Rightarrow> event list \<Rightarrow> string option result \<times> event list"
where
  "fetch_html_loop env url max_tries attempt 0 es = (Returns None, es)"
| "fetch_html_loop env url max_tries attempt (Suc n) es =
     (case fetch_html_try max_tries attempt (client_get env (length es) url attempt) of
        Return html \<Rightarrow> (Returns (Some html), Request url attempt # es)
      | Continue \<Rightarrow>
          fetch_html_loop env url max_tries (Suc attempt) n (Request url attempt # es)
      | Raise \<Rightarrow>
          if int attempt = max_tries - 1 then (Raises, Request url attempt # es)
          else fetch_html_loop env url max_tries (Suc attempt) n (Request url attempt # es))"

definition fetch_html_with_scrapingbee ::
  "env \<Rightarrow> string \<Rightarrow> int \<Rightarrow> event list \<Rightarrow> string option result \<times> event list" where
  "fetch_html_with_scrapingbee env url max_tries es =
     fetch_html_loop env url max_tries 0 (nat max_tries) es"

text \<open>
  \<open>run\<close>, up to the end of the discovery phase. The second argument holds the base URL,
  the keywords and the concurrency of the configuration, the third the configured
  \<open>allowed_domains\<close> if there are any. The default of the allowed domains, the netloc of
  the base URL, is computed in any case, so \<open>run\<close> raises when \<open>urlparse\<close> rejects the base
  URL. Without an API key \<open>run\<close> prints an error and returns; otherwise it crawls with
  \<open>crawl_with_scrapingbee\<close> (whose page budget is left at its default of 100), sorts the
  product URLs, and falls back to the base URL when there are none. The processing of
  the product pages that follows is not modelled.
\<close>

datatype run_outcome = Key_missing | To_process "string list"

definition run ::
  "env \<Rightarrow> config \<Rightarrow> string list option \<Rightarrow> run_outcome result \<times> event list" where
  "run env cfg configured_domains =
     (case urlparse (base_url cfg) of
        Raises \<Rightarrow> (Raises, [])
      | Returns parsed \<Rightarrow>
          (let domains = (case configured_domains of
                            None \<Rightarrow> [netloc parsed]
                          | Some ds \<Rightarrow> ds)
           in if falsy (api_key env) then (Returns Key_missing, [])
              else (let st = crawl_with_scrapingbee env
                               (cfg\<lparr>allowed_domains := domains, max_pages := 100\<rparr>);
                        found = sort (remdups (product_urls st))
                    in (Returns (To_process (if found = [] then [base_url cfg] else found)),
                        events st))))"

section \<open>A concrete environment\<close>

text \<open>
  Modelled from the spec: \<open>utils.canonical_url\<close> is missing from the sources. The spec
  says that canonicalization resolves a relative href against a base and strips the
  fragment, and yields an absolute URL. The model keeps an href that has a scheme,
  resolves an href that starts with \<open>/\<close> against the base's scheme and netloc, and any
  other href against the directory of the base's path; it raises when \<open>urlparse\<close>
  rejects the base.
\<close>

definition canonical_url_spec :: "string \<Rightarrow> string \<Rightarrow> string option result" where
  "canonical_url_spec base href =
     (let h = fst (split_first (CHR ''#'') href)
      in if h = [] then Returns None
         else if fst (split_scheme h) \<noteq> [] then Returns (Some h)
         else (case urlparse base of
                 Raises \<Rightarrow> Raises
               | Returns b \<Rightarrow>
                   if hd h = CHR ''/'' then Returns (Some (scheme b @ ''://'' @ netloc b @ h))
                   else Returns (Some (scheme b @ ''://'' @ netloc b
                          @ rev (dropWhile (\<lambda>x. x \<noteq> CHR ''/'') (rev (path b))) @ h))))"

text \<open>
  Modelled from the spec: \<open>utils.is_same_domain\<close> is missing from the sources. The spec
  says that it is true iff the URL's host exactly or substring-matches one of the
  allowed domains. A URL that \<open>urlparse\<close> rejects has no host and is outside every
  domain.
\<close>

definition is_same_domain_spec :: "string \<Rightarrow> string list \<Rightarrow> bool" where
  "is_same_domain_spec url domains =
     (case urlparse url of
        Raises \<Rightarrow> False
      | Returns parsed \<Rightarrow> any (\<lambda>d. str_in d (hostname parsed)) domains)"

text \<open>
  A small static web site stands for the network in the examples: a page is the list
  of its hrefs, separated by spaces; a URL that is not in the site answers 404.
\<close>

fun words_acc :: "string \<Rightarrow> string \<Rightarrow> string list" where
  "words_acc [] w = (if w = [] then [] else [w])"
| "words_acc (c # cs) w =
     (if c = CHR '' '' then (if w = [] then words_acc cs [] else w # words_acc cs [])
      else words_acc cs (w @ [c]))"

fun lookup :: "(string \<times> 'a) list \<Rightarrow> string \<Rightarrow> 'a option" where
  "lookup [] k = None"
| "lookup ((k', v) # kvs) k = (if k = k' then Some v else lookup kvs k)"

definition page :: "int \<Rightarrow> string \<Rightarrow> response" where
  "page status html = \<lparr>status_code = status, content = Some html, resp_text = html\<rparr>"

definition site_env :: "(string \<times> string) list \<Rightarrow> env" where
  "site_env site =
     \<lparr> client_get = (\<lambda>n url attempt.
          case lookup site url of
            None \<Rightarrow> Returns (page 404 [])
          | Some html \<Rightarrow> Returns (page 200 html)),
       find_anchors = (\<lambda>html. Returns (words_acc html [])),
       canonical_url = canonical_url_spec,
       is_same_domain = is_same_domain_spec,
       api_key = Some ''key'',
       set_pop = (\<lambda>k. 0) \<rparr>"

definition shop :: "(string \<times> string) list" where
  "shop = [(''https://shop.test/'',
              ''/product/1 /about /product/2 https://other.test/product/9''),
           (''https://shop.test/about'', ''/ team.html''),
           (''https://shop.test/product/1'', ''specs''),
           (''https://shop.test/product/2'', [])]"

definition shop_cfg :: config where
  "shop_cfg = \<lparr> base_url = ''https://shop.test/'', allowed_domains = [''shop.test''],
      product_url_keywords = [''product''], concurrency = 1, max_pages = 10 \<rparr>"

definition shop_env :: env where
  "shop_env = site_env shop"

text \<open>A schedule of the single worker that runs the crawl of the shop to its end.\<close>

definition shop_run :: "nat list" where
  "shop_run = [0, 0, 0, 0, 0, 0, 0, 0, 0, 0, 0, 0]"

text \<open>The same site when the environment variable of the API key is not set.\<close>

definition no_key_env :: env where
  "no_key_env = shop_env\<lparr>api_key := None\<rparr>"

text \<open>A site on which every URL answers 404.\<close>

definition dead_env :: env where
  "dead_env = site_env []"

text \<open>A budget of two pages with batches of three, and of one page with two workers.\<close>

definition batch_cfg :: config where
  "batch_cfg = shop_cfg\<lparr>concurrency := 3, max_pages := 2\<rparr>"

definition pair_cfg :: config where
  "pair_cfg = shop_cfg\<lparr>concurrency := 2, max_pages := 1\<rparr>"

text \<open>
  The shop when every request for \<open>/product/1\<close> is reset by the network, and when the
  parser raises on the markup \<open><a\<close>.
\<close>

definition flaky_env :: env where
  "flaky_env = shop_env
     \<lparr> client_get := (\<lambda>n url attempt.
          if url = ''https://shop.test/product/1'' then Raises
          else client_get shop_env n url attempt),
       find_anchors := (\<lambda>html. if html = ''<a'' then Raises else find_anchors shop_env html) \<rparr>"

text \<open>
  A catalogue whose seed URL matches the keyword and is linked from its own page; a
  page with a link that carries the allowed domain as user information.
\<close>

definition catalog_env :: env where
  "catalog_env = site_env [(''https://shop.test/products/'', ''/products/ /products/1'')]"

definition catalog_cfg :: config where
  "catalog_cfg = shop_cfg\<lparr>base_url := ''https://shop.test/products/''\<rparr>"

definition phish_env :: env where
  "phish_env = site_env [(''https://shop.test/'', ''https://shop.test@evil.test/product/9'')]"

text \<open>A seed that is outside the allowed domains and linked from its own page.\<close>

definition outside_cfg :: config where
  "outside_cfg = catalog_cfg\<lparr>allowed_domains := [''other.test'']\<rparr>"

text \<open>A site of two pages, and a pool without workers.\<close>

definition tiny_env :: env where
  "tiny_env = site_env [(''https://shop.test/'', ''/product/1'')]"


text \<open>A crawl that starts at the page whose requests are reset.\<close>

definition flaky_cfg :: config where
  "flaky_cfg = shop_cfg\<lparr>base_url := ''https://shop.test/product/1''\<rparr>"

definition tiny_urls :: "string set" where
  "tiny_urls = {''https://shop.test/'', ''https://shop.test/product/1''}"

text \<open>
  A page with a link that \<open>urlparse\<close> rejects (a netloc with an opening square bracket
  only), and an \<open>is_same_domain\<close> that looks for the allowed domain in the text of the
  URL.
\<close>

definition brittle_env :: env where
  "brittle_env =
     (site_env [(''https://shop.test/'', ''/product/1 https://shop.test[/product/2'')])
       \<lparr> is_same_domain := (\<lambda>url domains. any (\<lambda>d. str_in d url) domains) \<rparr>"

section \<open>The claims' vocabulary\<close>

text \<open>
  The spec's words for the keyword match: \<open>k\<close> is a case-insensitive substring of \<open>s\<close>.
\<close>

definition ci_substring :: "string \<Rightarrow> string \<Rightarrow> bool" where
  "ci_substring k s \<longleftrightarrow> (\<exists>pre post. lower s = pre @ lower k @ post)"

text \<open>The events that the retry loop of one page adds to the trace.\<close>

definition page_events :: "env \<Rightarrow> string \<Rightarrow> event list \<Rightarrow> event list" where
  "page_events env url es = snd (retry_loop env url 0 max_retries None es)"

text \<open>
  The trace of the sequential crawl agrees with its visited set: every page fetch is
  the fetch of the URL that was just added to the set.
\<close>

definition trace_inv :: "crawl_state \<Rightarrow> bool" where
  "trace_inv st \<longleftrightarrow>
     distinct (visited st) \<and> fetched (events st) = rev (visited st)
     \<and> set (requested (events st)) \<subseteq> set (visited st)
     \<and> (\<forall>u. Seen u \<in> set (events st) \<longleftrightarrow> u \<in> set (visited st))
     \<and> seen_before_request (events st)"

text \<open>A link passes the domain filter of the sequential crawl.\<close>

definition passes_filter :: "string list \<Rightarrow> string \<Rightarrow> bool" where
  "passes_filter domains link =
     (case urlparse link of Raises \<Rightarrow> False | Returns parsed \<Rightarrow> netloc_allowed domains parsed)"

text \<open>The keyword heuristic of the worker crawl returns true.\<close>

definition matches :: "config \<Rightarrow> string \<Rightarrow> bool" where
  "matches cfg link = (looks_like_product_url link (product_url_keywords cfg) = Returns True)"

text \<open>
  Auxiliary notions for the worker pool: the links of a page that are new and in the
  allowed domains; whether the loop over the links raises, and the links it has put
  into the queue before; the links of a fetch result; the worker's state after an
  iteration; the number of workers suspended in a request, and of crashed workers; and
  the invariant of the pool's runs.
\<close>

definition new_links :: "env \<Rightarrow> config \<Rightarrow> string list \<Rightarrow> pool_state \<Rightarrow> string list" where
  "new_links env cfg links s =
     filter (\<lambda>l. l \<notin> set (seen s) \<and> is_same_domain env l (allowed_domains cfg)) links"

definition link_crash :: "env \<Rightarrow> config \<Rightarrow> string list \<Rightarrow> pool_state \<Rightarrow> bool" where
  "link_crash env cfg links s =
     (\<exists>l \<in> set (new_links env cfg links s).
        looks_like_product_url l (product_url_keywords cfg) = Raises)"

definition links_put :: "env \<Rightarrow> config \<Rightarrow> string list \<Rightarrow> pool_state \<Rightarrow> string list" where
  "links_put env cfg links s =
     takeWhile (\<lambda>l. looks_like_product_url l (product_url_keywords cfg) \<noteq> Raises)
       (new_links env cfg links s)"

text \<open>No link of a page that is in the allowed domains is rejected by \<open>urlparse\<close>.\<close>

definition safe_links :: "env \<Rightarrow> config \<Rightarrow> string list \<Rightarrow> bool" where
  "safe_links env cfg links =
     (\<forall>l \<in> set links. is_same_domain env l (allowed_domains cfg) \<longrightarrow> urlparse l \<noteq> Raises)"

definition page_links :: "env \<Rightarrow> string \<Rightarrow> string option \<Rightarrow> string list option" where
  "page_links env url html =
     (case html of None \<Rightarrow> None | Some h \<Rightarrow> if h = [] then None else Some (extract_links env url h))"

definition leave_or_wait :: "config \<Rightarrow> pool_state \<Rightarrow> worker" where
  "leave_or_wait cfg s = (if max_pages cfg \<le> int (length (seen s)) then Exited else Waiting)"

definition next_worker :: "env \<Rightarrow> config \<Rightarrow> string list \<Rightarrow> pool_state \<Rightarrow> worker" where
  "next_worker env cfg links s =
     (if link_crash env cfg links s then Crashed else leave_or_wait cfg s)"

definition is_fetching :: "worker \<Rightarrow> bool" where
  "is_fetching x = (case x of Fetching u \<Rightarrow> True | _ \<Rightarrow> False)"

definition fetching_count :: "worker list \<Rightarrow> nat" where
  "fetching_count ws = length (filter is_fetching ws)"

definition crashed_count :: "worker list \<Rightarrow> nat" where
  "crashed_count ws = length (filter (\<lambda>x. x = Crashed) ws)"

definition pool_inv :: "env \<Rightarrow> config \<Rightarrow> pool_state \<Rightarrow> bool" where
  "pool_inv env cfg s \<longleftrightarrow>
     distinct (seen s)
     \<and> (\<forall>u. Seen u \<in> set (trace s) \<longleftrightarrow> u \<in> set (seen s))
     \<and> set (requested (trace s)) \<subseteq> set (seen s)
     \<and> seen_before_request (trace s)
     \<and> distinct (requested (trace s))
     \<and> fetched (trace s) = requested (trace s)
     \<and> (\<forall>u\<in>set (requested (trace s)). is_same_domain env u (allowed_domains cfg))
     \<and> (\<forall>u\<in>set (product_candidates s). is_same_domain env u (allowed_domains cfg))
     \<and> (\<forall>u. Blocked u \<notin> set (workers s))
     \<and> permits s + fetching_count (workers s) = length (workers s)"

text \<open>
  The queue's counter of unfinished tasks counts the items in the queue, the requests
  in flight and the items that crashed workers hold, so that \<open>task_done\<close> is never
  called on a counter of zero.
\<close>

definition count_inv :: "env \<Rightarrow> config \<Rightarrow> pool_state \<Rightarrow> bool" where
  "count_inv env cfg s \<longleftrightarrow>
     pool_inv env cfg s
     \<and> unfinished_tasks s
         = length (queue s) + fetching_count (workers s) + crashed_count (workers s)"

text \<open>Without an API key no worker is ever suspended in a request.\<close>

definition no_key_inv :: "pool_state \<Rightarrow> bool" where
  "no_key_inv s \<longleftrightarrow>
     requested (trace s) = [] \<and> product_candidates s = [] \<and> (\<forall>u. Fetching u \<notin> set (workers s))"

text \<open>
  A page fails in the sequential crawl when no attempt gave a response, when the last
  response is an error, or when its content cannot be decoded.
\<close>

definition page_failed :: "env \<Rightarrow> string \<Rightarrow> event list \<Rightarrow> bool" where
  "page_failed env url es =
     (case fst (retry_loop env url 0 max_retries None es) of
        None \<Rightarrow> True
      | Some r \<Rightarrow> \<not> ok r \<or> content r = None)"

text \<open>
  Invariants of the two crawls about domains and candidates: what is visited, queued
  or recorded passed the domain filter (the seed apart), and the matching links of
  every page whose links were processed without an exception are recorded.
\<close>

definition dom_inv :: "config \<Rightarrow> crawl_state \<Rightarrow> bool" where
  "dom_inv cfg st \<longleftrightarrow>
     set (visited st) \<union> set (to_visit st)
       \<subseteq> insert (base_url cfg) {u. passes_filter (allowed_domains cfg) u}
     \<and> set (product_urls st) \<subseteq> {u. passes_filter (allowed_domains cfg) u}"

definition links_inv :: "config \<Rightarrow> crawl_state \<Rightarrow> bool" where
  "links_inv cfg st \<longleftrightarrow>
     (\<forall>p ls fl l. Links p ls \<in> set (events st) \<longrightarrow>
        filter_links (allowed_domains cfg) ls [] = Returns fl \<longrightarrow> l \<in> set fl \<longrightarrow>
        is_product_url l (product_url_keywords cfg) \<longrightarrow> l \<in> set (product_urls st))"

definition cand_inv :: "env \<Rightarrow> config \<Rightarrow> pool_state \<Rightarrow> bool" where
  "cand_inv env cfg s \<longleftrightarrow>
     (\<forall>u \<in> set (seen s) \<union> set (queue s).
        u = base_url cfg \<or> (matches cfg u \<longrightarrow> u \<in> set (product_candidates s)))
     \<and> (\<forall>p ls l. Links p ls \<in> set (trace s) \<longrightarrow> safe_links env cfg ls \<longrightarrow> l \<in> set ls \<longrightarrow>
          is_same_domain env l (allowed_domains cfg) \<longrightarrow> matches cfg l \<longrightarrow>
          l = base_url cfg \<or> l \<in> set (product_candidates s))"

text \<open>
  The spec's finite reachable set, for each of the two crawls: a finite set \<open>U\<close> of URLs
  that holds the seed and, with every URL of \<open>U\<close>, the links of its page that pass the
  domain filter, whatever page the network returns for it. (The sequential crawl
  resolves the links against the base URL and filters on the netloc; the worker
  resolves them against the page's URL and filters with \<open>is_same_domain\<close>.) For the
  worker crawl the set is also free of the links that make a worker crash: \<open>urlparse\<close>
  accepts every link that passes the filter.
\<close>

definition closed_seq :: "env \<Rightarrow> config \<Rightarrow> string set \<Rightarrow> bool" where
  "closed_seq env cfg U \<longleftrightarrow>
     finite U \<and> base_url cfg \<in> U
     \<and> (\<forall>n url k r h l. url \<in> U \<longrightarrow> client_get env n url k = Returns r \<longrightarrow> ok r \<longrightarrow>
          content r = Some h \<longrightarrow> l \<in> set (extract_links env (base_url cfg) h) \<longrightarrow>
          passes_filter (allowed_domains cfg) l \<longrightarrow> l \<in> U)"

definition closed_pool :: "env \<Rightarrow> config \<Rightarrow> string set \<Rightarrow> bool" where
  "closed_pool env cfg U \<longleftrightarrow>
     finite U \<and> base_url cfg \<in> U
     \<and> (\<forall>n url h l. url \<in> U \<longrightarrow> fetch_result env n url = Some h \<longrightarrow>
          l \<in> set (extract_links env url h) \<longrightarrow>
          is_same_domain env l (allowed_domains cfg) \<longrightarrow> l \<in> U \<and> urlparse l \<noteq> Raises)"

text \<open>
  The invariants of the runs inside such a set, and the measure that every step of a
  worker decreases: the URLs not yet seen and the requests in flight, weighted by the
  number of links a page can add to the queue, and the length of the queue.
\<close>

definition reach_inv :: "string set \<Rightarrow> crawl_state \<Rightarrow> bool" where
  "reach_inv U st \<longleftrightarrow> distinct (visited st) \<and> set (visited st) \<union> set (to_visit st) \<subseteq> U"

definition drain_inv :: "config \<Rightarrow> string set \<Rightarrow> pool_state \<Rightarrow> bool" where
  "drain_inv cfg U s \<longleftrightarrow>
     distinct (seen s) \<and> set (seen s) \<union> set (queue s) \<subseteq> U
     \<and> (\<forall>u. Fetching u \<in> set (workers s) \<longrightarrow> u \<in> U)
     \<and> unfinished_tasks s = length (queue s) + fetching_count (workers s)
     \<and> Exited \<notin> set (workers s) \<and> Crashed \<notin> set (workers s)
     \<and> (\<forall>u. Blocked u \<notin> set (workers s))
     \<and> permits s + fetching_count (workers s) = length (workers s)
     \<and> length (workers s) = nat (concurrency cfg)"

definition potential :: "nat \<Rightarrow> pool_state \<Rightarrow> nat" where
  "potential N s =
     (N + 1) * ((N - length (seen s)) + fetching_count (workers s)) + length (queue s)"

section \<open>Basic facts\<close>

declare crawl_loop.simps [simp del]

lemma starts_with_iff: "starts_with k s \<longleftrightarrow> (\<exists>post. s = k @ post)"
  by (induction k s rule: starts_with.induct) auto

lemma str_in_iff: "str_in k s \<longleftrightarrow> (\<exists>pre post. s = pre @ k @ post)"
proof (induction s)
  case Nil
  then show ?case by simp
next
  case (Cons c cs)
  show ?case
  proof
    assume "str_in k (c # cs)"
    then consider "starts_with k (c # cs)" | "str_in k cs" by auto
    then show "\<exists>pre post. c # cs = pre @ k @ post"
    proof cases
      case 1
      then obtain post where "c # cs = k @ post" by (auto simp: starts_with_iff)
      then have "c # cs = [] @ k @ post" by simp
      then show ?thesis by blast
    next
      case 2
      then obtain pre post where "cs = pre @ k @ post" using Cons.IH by blast
      then have "c # cs = (c # pre) @ k @ post" by simp
      then show ?thesis by blast
    qed
  next
    assume "\<exists>pre post. c # cs = pre @ k @ post"
    then obtain pre post where e: "c # cs = pre @ k @ post" by blast
    show "str_in k (c # cs)"
    proof (cases pre)
      case Nil
      with e have "starts_with k (c # cs)" by (auto simp: starts_with_iff)
      then show ?thesis by simp
    next
      case (Cons a pre')
      with e have "cs = pre' @ k @ post" by simp
      then have "str_in k cs" using Cons.IH by blast
      then show ?thesis by simp
    qed
  qed
qed

lemma any_iff: "any p xs \<longleftrightarrow> (\<exists>x\<in>set xs. p x)"
  by (induction xs) auto

lemma set_set_add: "set (set_add x xs) = insert x (set xs)"
  by (auto simp: set_add_def)

lemma distinct_set_add: "distinct xs \<Longrightarrow> distinct (set_add x xs)"
  by (auto simp: set_add_def)

lemma crawl_loop_invariant:
  assumes "P st"
    and visit: "\<And>st url. P st \<Longrightarrow> url \<in> set (to_visit st) \<Longrightarrow> url \<notin> set (visited st) \<Longrightarrow>
                 int (length (visited st)) < max_pages cfg \<Longrightarrow>
                 P (visit_page env cfg url
                      (mark_visited url (st\<lparr>to_visit := removeAll url (to_visit st)\<rparr>)))"
    and skip: "\<And>st url. P st \<Longrightarrow> url \<in> set (to_visit st) \<Longrightarrow> url \<in> set (visited st) \<Longrightarrow>
                 P (st\<lparr>to_visit := removeAll url (to_visit st)\<rparr>)"
  shows "P (crawl_loop env cfg k st)"
  using assms
proof (induction env cfg k st rule: crawl_loop.induct)
  case (1 env cfg k st)
  let ?url = "pop_url env k (to_visit st)"
  let ?st1 = "st\<lparr>to_visit := removeAll ?url (to_visit st)\<rparr>"
  show ?case
  proof (cases "to_visit st \<noteq> [] \<and> int (length (visited st)) < max_pages cfg")
    case False
    have "crawl_loop env cfg k st = st"
      by (subst crawl_loop.simps) (use False in auto)
    then show ?thesis using "1.prems"(1) by simp
  next
    case True
    then have mem: "?url \<in> set (to_visit st)" by (simp add: pop_url_mem)
    show ?thesis
    proof (cases "?url \<in> set (visited st)")
      case False
      have eq: "crawl_loop env cfg k st =
                crawl_loop env cfg (Suc k) (visit_page env cfg ?url (mark_visited ?url ?st1))"
        by (subst crawl_loop.simps) (use True False in auto)
      have "P (visit_page env cfg ?url (mark_visited ?url ?st1))"
        by (rule "1.prems"(2) [OF "1.prems"(1) mem False]) (use True in simp)
      then show ?thesis using "1.IH"(1) [OF True False _ "1.prems"(2,3)] eq by simp
    next
      case t: True
      have eq: "crawl_loop env cfg k st = crawl_loop env cfg (Suc k) ?st1"
        by (subst crawl_loop.simps) (use True t in auto)
      have "P ?st1"
        using "1.prems"(3) [OF "1.prems"(1) mem t] .
      then show ?thesis using "1.IH"(2) [OF True _ _ "1.prems"(2,3)] t eq by simp
    qed
  qed
qed


lemma retry_loop_preserves:
  assumes "Q es" and "\<And>es k. Q es \<Longrightarrow> Q (Request url k # es)"
  shows "Q (snd (retry_loop env url a n r es))"
  using assms(1)
proof (induction n arbitrary: a r es)
  case 0
  then show ?case by simp
next
  case (Suc n)
  have q: "Q (Request url k # es)" for k using Suc.prems assms(2) by blast
  have ih: "Q (snd (retry_loop env url a' n r' (Request url k # es)))" for a' r' k
    using Suc.IH [OF q] .
  show ?case
  proof (cases "client_get env (length es) url a")
    case (Returns x)
    then show ?thesis by (simp add: q ih)
  next
    case Raises
    then show ?thesis by (simp add: q ih)
  qed
qed

lemma retry_loop_fetched_later:
  "0 < a \<Longrightarrow> fetched (snd (retry_loop env url a n r es)) = fetched es"
  by (induction n arbitrary: a r es) (auto split: result.splits)

lemma retry_loop_fetched_first:
  "fetched (snd (retry_loop env url 0 (Suc n) r es)) = url # fetched es"
  by (auto simp: retry_loop_fetched_later split: result.splits)

lemma retry_loop_requested:
  "set (requested (snd (retry_loop env url a n r es))) \<subseteq> insert url (set (requested es))"
  by (rule retry_loop_preserves) auto

lemma retry_loop_Seen:
  "Seen u \<in> set (snd (retry_loop env url a n r es)) \<longleftrightarrow> Seen u \<in> set es"
  by (rule retry_loop_preserves) auto

lemma retry_loop_Links:
  "Links p ls \<in> set (snd (retry_loop env url a n r es)) \<longleftrightarrow> Links p ls \<in> set es"
  by (rule retry_loop_preserves) auto

lemma retry_loop_seen_before_request:
  assumes "Seen url \<in> set es" and "seen_before_request es"
  shows "seen_before_request (snd (retry_loop env url a n r es))"
proof -
  have "Seen url \<in> set (snd (retry_loop env url a n r es))
        \<and> seen_before_request (snd (retry_loop env url a n r es))"
    by (rule retry_loop_preserves) (use assms in auto)
  then show ?thesis by simp
qed

lemma retry_loop_length:
  "length (snd (retry_loop env url a n r es)) \<le> length es + n"
proof (induction n arbitrary: a r es)
  case 0
  then show ?case by simp
next
  case (Suc n)
  have ih: "length (snd (retry_loop env url a' n r' (Request url k # es))) \<le> length es + Suc n"
    for a' r' k
    using Suc.IH [of a' r' "Request url k # es"] by simp
  show ?case
  proof (cases "client_get env (length es) url a")
    case (Returns x)
    then show ?thesis using ih by simp
  next
    case Raises
    then show ?thesis using ih by simp
  qed
qed

lemma add_link_events: "events (add_link cfg link st) = events st"
  by (simp add: add_link_def Let_def)

lemma add_links_events: "events (add_links cfg links st) = events st"
  by (induction links arbitrary: st) (simp_all add: add_link_events)

lemma add_link_to_visit:
  "set (to_visit (add_link cfg link st)) \<subseteq> set (to_visit st) \<union> ({link} - set (visited st))"
  by (auto simp: add_link_def Let_def split: if_splits)

lemma add_links_to_visit:
  "set (to_visit (add_links cfg links st)) \<subseteq> set (to_visit st) \<union> (set links - set (visited st))"
proof (induction links arbitrary: st)
  case Nil
  then show ?case by simp
next
  case (Cons a links)
  show ?case
    using Cons.IH [of "add_link cfg a st"] add_link_to_visit [of cfg a st]
    by (auto simp: add_link_visited)
qed

lemma add_link_product_urls:
  "set (product_urls (add_link cfg link st)) =
   set (product_urls st) \<union> (if is_product_url link (product_url_keywords cfg) then {link} else {})"
  by (auto simp: add_link_def Let_def split: if_splits)

lemma add_links_product_urls:
  "set (product_urls (add_links cfg links st)) =
   set (product_urls st) \<union> {l \<in> set links. is_product_url l (product_url_keywords cfg)}"
proof (induction links arbitrary: st)
  case Nil
  then show ?case by simp
next
  case (Cons a links)
  show ?case
    using Cons.IH [of "add_link cfg a st"] add_link_product_urls [of cfg a st]
    by (auto split: if_splits)
qed

lemma set_filter_links:
  "filter_links domains links acc = Returns fl \<Longrightarrow>
   set fl = set acc \<union> {l \<in> set links. passes_filter domains l}"
proof (induction links arbitrary: acc)
  case Nil
  then show ?case by auto
next
  case (Cons link links)
  show ?case
  proof (cases "urlparse link")
    case Raises
    then show ?thesis using Cons.prems by simp
  next
    case (Returns parsed)
    let ?acc = "if netloc_allowed domains parsed then set_add link acc else acc"
    have "filter_links domains links ?acc = Returns fl"
      using Cons.prems Returns by simp
    then have "set fl = set ?acc \<union> {l \<in> set links. passes_filter domains l}"
      by (rule Cons.IH)
    then show ?thesis using Returns by (auto simp: passes_filter_def set_set_add)
  qed
qed

lemma filter_links_raises:
  "filter_links domains links acc = Raises \<longleftrightarrow> (\<exists>l \<in> set links. urlparse l = Raises)"
proof (induction links arbitrary: acc)
  case Nil
  then show ?case by simp
next
  case (Cons link links)
  show ?case
  proof (cases "urlparse link")
    case Raises
    then show ?thesis by simp
  next
    case (Returns parsed)
    then show ?thesis using Cons.IH by simp
  qed
qed

lemma retry_loop_source:
  "fst (retry_loop env url a n resp es) = Some r \<Longrightarrow>
   resp = Some r \<or> (\<exists>m k. client_get env m url k = Returns r)"
proof (induction n arbitrary: a resp es)
  case 0
  then show ?case by simp
next
  case (Suc n)
  show ?case
  proof (cases "client_get env (length es) url a")
    case Raises
    then show ?thesis using Suc.prems Suc.IH by (auto split: if_splits)
  next
    case (Returns x)
    then show ?thesis using Suc.prems Suc.IH by (fastforce split: if_splits)
  qed
qed

lemma visit_page_cases_source:
  obtains (dead) "visit_page env cfg url st = st\<lparr>events := page_events env url (events st)\<rparr>"
  | (unfiltered) html n k r where
      "client_get env n url k = Returns r" "ok r" "content r = Some html"
      "filter_links (allowed_domains cfg) (extract_links env (base_url cfg) html) [] = Raises"
      "visit_page env cfg url st =
         st\<lparr>events := Links url (extract_links env (base_url cfg) html)
                          # page_events env url (events st)\<rparr>"
  | (links) html n k r fl where
      "client_get env n url k = Returns r" "ok r" "content r = Some html"
      "filter_links (allowed_domains cfg) (extract_links env (base_url cfg) html) [] = Returns fl"
      "visit_page env cfg url st =
         add_links cfg fl
           (st\<lparr>events := Links url (extract_links env (base_url cfg) html)
                             # page_events env url (events st)\<rparr>)"
proof -
  obtain resp es where r: "retry_loop env url 0 max_retries None (events st) = (resp, es)"
    by fastforce
  then have es: "es = page_events env url (events st)" by (simp add: page_events_def)
  show thesis
  proof (cases resp)
    case None
    with r es have "visit_page env cfg url st = st\<lparr>events := page_events env url (events st)\<rparr>"
      by (simp add: visit_page_def page_body_def)
    then show thesis by (rule dead)
  next
    case (Some rsp)
    have "fst (retry_loop env url 0 max_retries None (events st)) = Some rsp"
      using r Some by simp
    then obtain n k where src: "client_get env n url k = Returns rsp"
      using retry_loop_source by blast
    show thesis
    proof (cases "ok rsp")
      case False
      with r es Some
      have "visit_page env cfg url st = st\<lparr>events := page_events env url (events st)\<rparr>"
        by (simp add: visit_page_def page_body_def)
      then show thesis by (rule dead)
    next
      case True
      show thesis
      proof (cases "content rsp")
        case None
        with r es Some True
        have "visit_page env cfg url st = st\<lparr>events := page_events env url (events st)\<rparr>"
          by (simp add: visit_page_def page_body_def)
        then show thesis by (rule dead)
      next
        case (Some html)
        show thesis
        proof (cases "filter_links (allowed_domains cfg) (extract_links env (base_url cfg) html) []")
          case Raises
          with r es \<open>resp = Some rsp\<close> True Some
          have "visit_page env cfg url st =
             st\<lparr>events := Links url (extract_links env (base_url cfg) html)
                              # page_events env url (events st)\<rparr>"
            by (simp add: visit_page_def page_body_def Let_def)
          then show thesis using unfiltered [OF src True Some Raises] by blast
        next
          case (Returns fl)
          with r es \<open>resp = Some rsp\<close> True Some
          have "visit_page env cfg url st =
             add_links cfg fl
               (st\<lparr>events := Links url (extract_links env (base_url cfg) html)
                               # page_events env url (events st)\<rparr>)"
            by (simp add: visit_page_def page_body_def Let_def)
          then show thesis using links [OF src True Some Returns] by blast
        qed
      qed
    qed
  qed
qed

lemma visit_page_cases:
  obtains (dead) "visit_page env cfg url st = st\<lparr>events := page_events env url (events st)\<rparr>"
  | (unfiltered) html where
      "filter_links (allowed_domains cfg) (extract_links env (base_url cfg) html) [] = Raises"
      "visit_page env cfg url st =
         st\<lparr>events := Links url (extract_links env (base_url cfg) html)
                          # page_events env url (events st)\<rparr>"
  | (links) html fl where
      "filter_links (allowed_domains cfg) (extract_links env (base_url cfg) html) [] = Returns fl"
      "visit_page env cfg url st =
         add_links cfg fl
           (st\<lparr>events := Links url (extract_links env (base_url cfg) html)
                             # page_events env url (events st)\<rparr>)"
  by (cases rule: visit_page_cases_source [of env cfg url st]) blast+

lemma page_events_fetched: "fetched (page_events env url es) = url # fetched es"
  by (simp add: page_events_def max_retries_def eval_nat_numeral retry_loop_fetched_first
        del: retry_loop.simps)

lemma page_events_requested:
  "set (requested (page_events env url es)) \<subseteq> insert url (set (requested es))"
  by (simp add: page_events_def retry_loop_requested)

lemma page_events_Seen: "Seen u \<in> set (page_events env url es) \<longleftrightarrow> Seen u \<in> set es"
  by (simp add: page_events_def retry_loop_Seen)

lemma page_events_Links: "Links p ls \<in> set (page_events env url es) \<longleftrightarrow> Links p ls \<in> set es"
  by (simp add: page_events_def retry_loop_Links)

lemma page_events_seen_before_request:
  "Seen url \<in> set es \<Longrightarrow> seen_before_request es \<Longrightarrow> seen_before_request (page_events env url es)"
  by (simp add: page_events_def retry_loop_seen_before_request)

lemma visit_page_events:
  obtains "events (visit_page env cfg url st) = page_events env url (events st)"
  | ls where "events (visit_page env cfg url st) = Links url ls # page_events env url (events st)"
  by (cases rule: visit_page_cases [of env cfg url st]) (auto simp: add_links_events)

lemma trace_inv_visit:
  assumes "trace_inv st" and "url \<notin> set (visited st)"
  shows "trace_inv (visit_page env cfg url (mark_visited url (st\<lparr>to_visit := tv\<rparr>)))"
proof -
  let ?st1 = "mark_visited url (st\<lparr>to_visit := tv\<rparr>)"
  let ?es = "page_events env url (events ?st1)"
  have v: "visited (visit_page env cfg url ?st1) = visited st @ [url]"
    by (simp add: visit_page_visited mark_visited_def)
  have e1: "events ?st1 = Seen url # events st" by (simp add: mark_visited_def)
  have base: "fetched ?es = rev (visited st @ [url])"
      "set (requested ?es) \<subseteq> set (visited st @ [url])"
      "\<forall>u. Seen u \<in> set ?es \<longleftrightarrow> u \<in> set (visited st @ [url])"
      "seen_before_request ?es"
    using assms page_events_requested [of env url "events ?st1"]
    by (auto simp: trace_inv_def e1 page_events_fetched page_events_Seen
          page_events_seen_before_request)
  show ?thesis
  proof (cases rule: visit_page_events [of env cfg url ?st1])
    case 1
    then show ?thesis using base assms by (simp add: trace_inv_def v)
  next
    case (2 ls)
    then show ?thesis using base assms by (simp add: trace_inv_def v)
  qed
qed

lemma trace_inv_crawl_loop: "trace_inv st \<Longrightarrow> trace_inv (crawl_loop env cfg k st)"
proof (rule crawl_loop_invariant)
  fix st url
  assume "trace_inv st" "url \<notin> set (visited st)"
  then show "trace_inv (visit_page env cfg url
               (mark_visited url (st\<lparr>to_visit := removeAll url (to_visit st)\<rparr>)))"
    by (rule trace_inv_visit)
next
  fix st url
  assume "trace_inv st"
  then show "trace_inv (st\<lparr>to_visit := removeAll url (to_visit st)\<rparr>)"
    by (simp add: trace_inv_def)
qed

lemma trace_inv_crawl: "trace_inv (crawl_with_scrapingbee env cfg)"
  unfolding crawl_with_scrapingbee_def
  by (rule trace_inv_crawl_loop) (simp add: trace_inv_def init_state_def)

lemma visit_page_failed:
  "page_failed env url (events st) \<Longrightarrow>
   visit_page env cfg url st = st\<lparr>events := page_events env url (events st)\<rparr>"
  by (auto simp: page_failed_def visit_page_def page_body_def page_events_def
      split: prod.splits option.splits)

text \<open>
  A page with a link that \<open>urlparse\<close> rejects fails in the filter loop: its links are
  in the trace, and none of them is recorded or queued.
\<close>

lemma visit_page_unfiltered:
  assumes "fst (retry_loop env url 0 max_retries None (events st)) = Some r" "ok r"
    "content r = Some html"
    "\<exists>l \<in> set (extract_links env (base_url cfg) html). urlparse l = Raises"
  shows "visit_page env cfg url st =
           st\<lparr>events := Links url (extract_links env (base_url cfg) html)
                            # page_events env url (events st)\<rparr>"
proof -
  have f: "filter_links (allowed_domains cfg) (extract_links env (base_url cfg) html) [] = Raises"
    using assms(4) by (simp add: filter_links_raises)
  obtain resp es where re: "retry_loop env url 0 max_retries None (events st) = (resp, es)"
    by fastforce
  then have "resp = Some r" "es = page_events env url (events st)"
    using assms(1) by (simp_all add: page_events_def)
  then show ?thesis
    using re assms(2,3) f by (simp add: visit_page_def page_body_def Let_def)
qed

lemma extract_links_failed: "find_anchors env html = Raises \<Longrightarrow> extract_links env base html = []"
  by (simp add: extract_links_def)

lemma crawl_loop_step:
  assumes "to_visit st \<noteq> []" "int (length (visited st)) < max_pages cfg"
    "pop_url env k (to_visit st) \<notin> set (visited st)"
  shows "crawl_loop env cfg k st =
         crawl_loop env cfg (Suc k)
           (visit_page env cfg (pop_url env k (to_visit st))
              (mark_visited (pop_url env k (to_visit st))
                 (st\<lparr>to_visit := removeAll (pop_url env k (to_visit st)) (to_visit st)\<rparr>)))"
  by (subst crawl_loop.simps) (use assms in auto)

lemma visit_page_product_urls:
  "set (product_urls st) \<subseteq> set (product_urls (visit_page env cfg url st))"
  by (cases rule: visit_page_cases [of env cfg url st]) (auto simp: add_links_product_urls)

lemma crawl_loop_product_urls:
  "set (product_urls st) \<subseteq> set (product_urls (crawl_loop env cfg k st))"
proof -
  have "set (product_urls st) \<subseteq> set (product_urls (crawl_loop env cfg k st))"
  proof (rule crawl_loop_invariant [where P = "\<lambda>s::crawl_state. set (product_urls st) \<subseteq> set (product_urls s)"])
    show "set (product_urls st) \<subseteq> set (product_urls st)" by simp
  next
    fix s :: crawl_state and url
    assume "set (product_urls st) \<subseteq> set (product_urls s)"
    then show "set (product_urls st) \<subseteq> set (product_urls (visit_page env cfg url
                 (mark_visited url (s\<lparr>to_visit := removeAll url (to_visit s)\<rparr>))))"
      using visit_page_product_urls
        [of "mark_visited url (s\<lparr>to_visit := removeAll url (to_visit s)\<rparr>)" env cfg url]
      by (auto simp: mark_visited_def)
  next
    fix s :: crawl_state and url
    assume "set (product_urls st) \<subseteq> set (product_urls s)"
    then show "set (product_urls st)
               \<subseteq> set (product_urls (s\<lparr>to_visit := removeAll url (to_visit s)\<rparr>))"
      by simp
  qed
  then show ?thesis .
qed

lemma crawl_page_contains:
  "fst (crawl_page_body env cfg url es) = Raises \<Longrightarrow> fst (crawl_page env cfg url es) = ([], [])"
  by (auto simp: crawl_page_def split: prod.splits result.splits)

text \<open>
  The retry loop of \<open>crawl_with_scrapingbee\<close> makes no further request after a status
  that is neither a success nor 503.
\<close>

lemma retry_loop_terminal_status:
  assumes "client_get env (length es) url a = Returns r" "\<not> ok r" "status_code r \<noteq> 503"
  shows "retry_loop env url a (Suc n) resp es = (Some r, Request url a # es)"
  using assms by simp

text \<open>
  \<open>crawl_with_scrapingbee\<close> tests the budget before every page, so it starts at most
  \<open>max_pages\<close> page fetches.
\<close>

lemma budget_crawl_loop:
  "int (length (visited st)) \<le> max 0 (max_pages cfg) \<Longrightarrow>
   int (length (visited (crawl_loop env cfg k st))) \<le> max 0 (max_pages cfg)"
proof (rule crawl_loop_invariant
    [where P = "\<lambda>s::crawl_state. int (length (visited s)) \<le> max 0 (max_pages cfg)"])
  fix st :: crawl_state and url
  assume "int (length (visited st)) < max_pages cfg"
  then show "int (length (visited (visit_page env cfg url
               (mark_visited url (st\<lparr>to_visit := removeAll url (to_visit st)\<rparr>)))))
             \<le> max 0 (max_pages cfg)"
    by (simp add: visit_page_visited mark_visited_def)
next
  fix st :: crawl_state and url
  assume "int (length (visited st)) \<le> max 0 (max_pages cfg)"
  then show "int (length (visited (st\<lparr>to_visit := removeAll url (to_visit st)\<rparr>)))
             \<le> max 0 (max_pages cfg)"
    by simp
qed

lemma crawl_with_scrapingbee_budget:
  "int (length (fetched (events (crawl_with_scrapingbee env cfg)))) \<le> max 0 (max_pages cfg)"
proof -
  have "fetched (events (crawl_with_scrapingbee env cfg)) =
        rev (visited (crawl_with_scrapingbee env cfg))"
    using trace_inv_crawl [of env cfg] by (simp add: trace_inv_def)
  moreover have "int (length (visited (crawl_with_scrapingbee env cfg))) \<le> max 0 (max_pages cfg)"
    unfolding crawl_with_scrapingbee_def
    by (rule budget_crawl_loop) (simp add: init_state_def)
  ultimately show ?thesis by simp
qed

section \<open>Facts about the worker pool\<close>

lemma task_done_simps [simp]:
  "seen (task_done s) = seen s" "queue (task_done s) = queue s"
  "unfinished_tasks (task_done s) = unfinished_tasks s - 1"
  "product_candidates (task_done s) = product_candidates s"
  "workers (task_done s) = workers s" "permits (task_done s) = permits s"
  "trace (task_done s) = trace s" "clock (task_done s) = clock s"
  by (simp_all add: task_done_def)

lemma looks_like_raises:
  "looks_like_product_url l kws = Raises \<longleftrightarrow> urlparse l = Raises"
  by (simp add: looks_like_product_url_def Let_def split: result.splits)

lemma new_links_seen:
  "seen s' = seen s \<Longrightarrow> new_links env cfg ls s' = new_links env cfg ls s"
  by (simp add: new_links_def)

lemma links_put_seen:
  "seen s' = seen s \<Longrightarrow> links_put env cfg ls s' = links_put env cfg ls s"
  using new_links_seen [of s' s env cfg ls] by (simp add: links_put_def)

lemma link_crash_seen:
  "seen s' = seen s \<Longrightarrow> link_crash env cfg ls s' = link_crash env cfg ls s"
  using new_links_seen [of s' s env cfg ls] by (simp add: link_crash_def)

lemma links_put_subset: "set (links_put env cfg ls s) \<subseteq> set (new_links env cfg ls s)"
  unfolding links_put_def by (auto dest: set_takeWhileD)

lemma links_put_complete:
  "\<not> link_crash env cfg ls s \<Longrightarrow> links_put env cfg ls s = new_links env cfg ls s"
  unfolding links_put_def link_crash_def by simp

lemma safe_links_no_crash: "safe_links env cfg ls \<Longrightarrow> \<not> link_crash env cfg ls s"
  by (auto simp: safe_links_def link_crash_def new_links_def looks_like_raises)

lemma put_link_skip:
  "\<not> (l \<notin> set (seen s) \<and> is_same_domain env l (allowed_domains cfg)) \<Longrightarrow>
   put_link env cfg l s = Returns s"
  by (auto simp: put_link_def)

lemma put_link_raises:
  "l \<notin> set (seen s) \<Longrightarrow> is_same_domain env l (allowed_domains cfg) \<Longrightarrow>
   looks_like_product_url l (product_url_keywords cfg) = Raises \<Longrightarrow>
   put_link env cfg l s = Raises"
  by (simp add: put_link_def)

lemma put_link_returns:
  "l \<notin> set (seen s) \<Longrightarrow> is_same_domain env l (allowed_domains cfg) \<Longrightarrow>
   looks_like_product_url l (product_url_keywords cfg) = Returns b \<Longrightarrow>
   put_link env cfg l s =
     Returns (s\<lparr>product_candidates :=
                   (if b then set_add l (product_candidates s) else product_candidates s),
                queue := queue s @ [l], unfinished_tasks := unfinished_tasks s + 1\<rparr>)"
  by (simp add: put_link_def Let_def)

text \<open>
  What the loop over the links of a page does: it raises exactly when a new link in
  the allowed domains makes the heuristic raise; the links before that one are put
  into the queue, and those that match are recorded.
\<close>

lemma put_links_result:
  "fst (put_links env cfg ls s) = (if link_crash env cfg ls s then Raises else Returns ())
   \<and> seen (snd (put_links env cfg ls s)) = seen s
   \<and> workers (snd (put_links env cfg ls s)) = workers s
   \<and> permits (snd (put_links env cfg ls s)) = permits s
   \<and> trace (snd (put_links env cfg ls s)) = trace s
   \<and> clock (snd (put_links env cfg ls s)) = clock s
   \<and> queue (snd (put_links env cfg ls s)) = queue s @ links_put env cfg ls s
   \<and> unfinished_tasks (snd (put_links env cfg ls s))
       = unfinished_tasks s + length (links_put env cfg ls s)
   \<and> set (product_candidates (snd (put_links env cfg ls s)))
       = set (product_candidates s) \<union> {l \<in> set (links_put env cfg ls s). matches cfg l}"
proof (induction ls arbitrary: s)
  case Nil
  then show ?case by (simp add: link_crash_def links_put_def new_links_def)
next
  case (Cons l ls)
  show ?case
  proof (cases "l \<notin> set (seen s) \<and> is_same_domain env l (allowed_domains cfg)")
    case False
    have n: "new_links env cfg (l # ls) s = new_links env cfg ls s"
      using False by (auto simp: new_links_def)
    have "put_links env cfg (l # ls) s = put_links env cfg ls s"
      using put_link_skip [OF False] by simp
    then show ?thesis
      using Cons.IH [of s] n by (simp add: link_crash_def links_put_def)
  next
    case True
    then have n: "new_links env cfg (l # ls) s = l # new_links env cfg ls s"
      by (simp add: new_links_def)
    show ?thesis
    proof (cases "looks_like_product_url l (product_url_keywords cfg)")
      case Raises
      have "put_links env cfg (l # ls) s = (Raises, s)"
        using put_link_raises [of l s env cfg] True Raises by simp
      then show ?thesis using n Raises by (simp add: link_crash_def links_put_def)
    next
      case (Returns b)
      define s1 where "s1 = s\<lparr>product_candidates :=
                   (if b then set_add l (product_candidates s) else product_candidates s),
                queue := queue s @ [l], unfinished_tasks := unfinished_tasks s + 1\<rparr>"
      have s1: "seen s1 = seen s" "workers s1 = workers s" "permits s1 = permits s"
        "trace s1 = trace s" "clock s1 = clock s" "queue s1 = queue s @ [l]"
        "unfinished_tasks s1 = unfinished_tasks s + 1"
        "set (product_candidates s1) = set (product_candidates s) \<union> (if b then {l} else {})"
        by (auto simp: s1_def set_set_add)
      have pl: "put_links env cfg (l # ls) s = put_links env cfg ls s1"
        using put_link_returns [of l s env cfg b] True Returns by (simp add: s1_def)
      have lp: "links_put env cfg (l # ls) s = l # links_put env cfg ls s1"
        using n Returns by (simp add: links_put_def new_links_seen [OF s1(1)])
      have lc: "link_crash env cfg (l # ls) s = link_crash env cfg ls s1"
        using n Returns by (simp add: link_crash_def new_links_seen [OF s1(1)])
      have m: "matches cfg l \<longleftrightarrow> b" using Returns by (simp add: matches_def)
      show ?thesis
        unfolding pl lp lc using Cons.IH [of s1] by (auto simp: s1 m)
    qed
  qed
qed

lemma end_iteration_eq:
  "end_iteration cfg w s =
     s\<lparr>unfinished_tasks := unfinished_tasks s - 1,
       workers := (workers s)[w := leave_or_wait cfg s]\<rparr>"
  by (simp add: end_iteration_def leave_or_wait_def task_done_def Let_def)

lemma worker_step_cases [consumes 1, case_names skip_seen skip_domain start unblock complete]:
  assumes "worker_step env cfg w s = Some s'"
  obtains
    (skip_seen) url rest where "w < length (workers s)" "workers s ! w = Waiting"
      "queue s = url # rest" "url \<in> set (seen s)"
      "s' = task_done (s\<lparr>clock := Suc (clock s), queue := rest\<rparr>)"
  | (skip_domain) url rest where "w < length (workers s)" "workers s ! w = Waiting"
      "queue s = url # rest" "url \<notin> set (seen s)"
      "\<not> is_same_domain env url (allowed_domains cfg)"
      "s' = task_done (s\<lparr>clock := Suc (clock s), queue := rest, seen := seen s @ [url],
                          trace := Seen url # trace s\<rparr>)"
  | (start) url rest where "w < length (workers s)" "workers s ! w = Waiting"
      "queue s = url # rest" "url \<notin> set (seen s)"
      "is_same_domain env url (allowed_domains cfg)"
      "s' = start_fetch env cfg w url (s\<lparr>clock := Suc (clock s), queue := rest,
                          seen := seen s @ [url], trace := Seen url # trace s\<rparr>)"
  | (unblock) url where "w < length (workers s)" "workers s ! w = Blocked url"
      "permits s \<noteq> 0"
      "s' = start_fetch env cfg w url (s\<lparr>clock := Suc (clock s)\<rparr>)"
  | (complete) url where "w < length (workers s)" "workers s ! w = Fetching url"
      "s' = after_fetch env cfg w url (fetch_result env (clock s) url)
              (s\<lparr>clock := Suc (clock s), permits := permits s + 1\<rparr>)"
  using assms
  by (auto simp: worker_step_def dequeue_def split: if_splits worker.splits list.splits)

lemma exec_invariant:
  assumes "exec env cfg sched s = Some s'" and "P s"
    and "\<And>w s s'. P s \<Longrightarrow> worker_step env cfg w s = Some s' \<Longrightarrow> P s'"
  shows "P s'"
  using assms(1,2)
proof (induction sched arbitrary: s)
  case Nil
  then show ?case by simp
next
  case (Cons w ws)
  then obtain s1 where s1: "worker_step env cfg w s = Some s1" "exec env cfg ws s1 = Some s'"
    by (auto split: option.splits)
  then show ?case using Cons.IH [OF s1(2)] assms(3) [OF Cons.prems(2) s1(1)] by blast
qed


lemma new_links_cong [simp]:
  "new_links env cfg ls (s\<lparr>trace := t\<rparr>) = new_links env cfg ls s"
  by (simp add: new_links_def)

lemma after_fetch_None:
  "page_links env url html = None \<Longrightarrow>
   after_fetch env cfg w url html s =
     s\<lparr>unfinished_tasks := unfinished_tasks s - 1,
       workers := (workers s)[w := leave_or_wait cfg s]\<rparr>"
  by (auto simp: after_fetch_def page_links_def end_iteration_eq
      split: option.splits if_splits)

lemma after_fetch_Some:
  assumes "page_links env url html = Some ls"
  shows "seen (after_fetch env cfg w url html s) = seen s
   \<and> permits (after_fetch env cfg w url html s) = permits s
   \<and> clock (after_fetch env cfg w url html s) = clock s
   \<and> trace (after_fetch env cfg w url html s) = Links url ls # trace s
   \<and> queue (after_fetch env cfg w url html s) = queue s @ links_put env cfg ls s
   \<and> unfinished_tasks (after_fetch env cfg w url html s)
       = unfinished_tasks s + length (links_put env cfg ls s)
         - (if link_crash env cfg ls s then 0 else 1)
   \<and> set (product_candidates (after_fetch env cfg w url html s))
       = set (product_candidates s) \<union> {l \<in> set (links_put env cfg ls s). matches cfg l}
   \<and> workers (after_fetch env cfg w url html s) = (workers s)[w := next_worker env cfg ls s]"
proof -
  define s0 where "s0 = s\<lparr>trace := Links url ls # trace s\<rparr>"
  have s0: "seen s0 = seen s" "workers s0 = workers s" "permits s0 = permits s"
    "trace s0 = Links url ls # trace s" "clock s0 = clock s" "queue s0 = queue s"
    "unfinished_tasks s0 = unfinished_tasks s" "product_candidates s0 = product_candidates s"
    by (simp_all add: s0_def)
  obtain h where h: "html = Some h" "h \<noteq> []" "ls = extract_links env url h"
    using assms by (auto simp: page_links_def split: option.splits if_splits)
  obtain r s1 where p: "put_links env cfg ls s0 = (r, s1)" by fastforce
  note res = put_links_result [of env cfg ls s0, unfolded p fst_conv snd_conv
      links_put_seen [OF s0(1)] link_crash_seen [OF s0(1)] s0]
  have af: "after_fetch env cfg w url html s =
              (if link_crash env cfg ls s then s1\<lparr>workers := (workers s1)[w := Crashed]\<rparr>
               else end_iteration cfg w s1)"
    using h p res by (simp add: after_fetch_def s0_def split: result.splits)
  show ?thesis
  proof (cases "link_crash env cfg ls s")
    case True
    then show ?thesis using af res by (simp add: next_worker_def)
  next
    case False
    have "leave_or_wait cfg s1 = leave_or_wait cfg s"
      using res by (simp add: leave_or_wait_def)
    then show ?thesis using False af res by (simp add: next_worker_def end_iteration_eq)
  qed
qed

lemma is_fetching_simps [simp]:
  "is_fetching (Fetching u)" "\<not> is_fetching Waiting" "\<not> is_fetching Exited"
  "\<not> is_fetching (Blocked u)" "\<not> is_fetching Crashed"
  by (simp_all add: is_fetching_def)

lemma count_update:
  "w < length ws \<Longrightarrow>
   length (filter P (ws[w := x])) + (if P (ws ! w) then 1 else 0)
     = length (filter P ws) + (if P x then 1 else 0)"
proof (induction ws arbitrary: w)
  case Nil
  then show ?case by simp
next
  case (Cons a ws)
  show ?case
  proof (cases w)
    case 0
    then show ?thesis by simp
  next
    case (Suc v)
    then show ?thesis using Cons.IH [of v] Cons.prems by simp
  qed
qed

lemma fetching_count_update:
  "w < length ws \<Longrightarrow>
   fetching_count (ws[w := x]) + (if is_fetching (ws ! w) then 1 else 0)
     = fetching_count ws + (if is_fetching x then 1 else 0)"
  unfolding fetching_count_def by (rule count_update)

lemma crashed_count_update:
  "w < length ws \<Longrightarrow>
   crashed_count (ws[w := x]) + (if ws ! w = Crashed then 1 else 0)
     = crashed_count ws + (if x = Crashed then 1 else 0)"
  unfolding crashed_count_def by (rule count_update)

lemma fetching_count_less:
  "w < length ws \<Longrightarrow> \<not> is_fetching (ws ! w) \<Longrightarrow> fetching_count ws < length ws"
  unfolding fetching_count_def
  by (rule length_filter_less [of "ws ! w"]) simp_all


lemma leave_or_wait_simps [simp]:
  "leave_or_wait cfg s \<noteq> Blocked u" "Blocked u \<noteq> leave_or_wait cfg s"
  "\<not> is_fetching (leave_or_wait cfg s)" "leave_or_wait cfg s \<noteq> Crashed"
  by (simp_all add: leave_or_wait_def)

lemma next_worker_simps [simp]:
  "next_worker env cfg ls s \<noteq> Blocked u" "Blocked u \<noteq> next_worker env cfg ls s"
  "\<not> is_fetching (next_worker env cfg ls s)"
  "next_worker env cfg ls s \<noteq> Fetching u" "Fetching u \<noteq> next_worker env cfg ls s"
  by (simp_all add: next_worker_def leave_or_wait_def)

lemma not_in_update: "y \<notin> set xs \<Longrightarrow> y \<noteq> x \<Longrightarrow> y \<notin> set (xs[w := x])"
  using set_update_subset_insert [of xs w x] by auto

lemma new_links_in_domain:
  "l \<in> set (new_links env cfg ls s) \<Longrightarrow> is_same_domain env l (allowed_domains cfg)"
  by (simp add: new_links_def)

lemma links_put_in_domain:
  "l \<in> set (links_put env cfg ls s) \<Longrightarrow> is_same_domain env l (allowed_domains cfg)"
  using links_put_subset [of env cfg ls s] by (auto dest: new_links_in_domain)

lemma pool_inv_after_fetch:
  assumes inv: "pool_inv env cfg s" and w: "w < length (workers s)"
    and f: "workers s ! w = Fetching url"
  shows "pool_inv env cfg (after_fetch env cfg w url html
           (s\<lparr>clock := c, permits := permits s + 1\<rparr>))"
proof -
  define s1 where "s1 = s\<lparr>clock := c, permits := permits s + 1\<rparr>"
  have s1: "seen s1 = seen s" "trace s1 = trace s" "workers s1 = workers s"
    "permits s1 = permits s + 1" "product_candidates s1 = product_candidates s"
    by (simp_all add: s1_def)
  have fc: "fetching_count ((workers s)[w := x]) + 1 = fetching_count (workers s)"
    if "\<not> is_fetching x" for x
    using fetching_count_update [OF w, of x] f that by simp
  have nb: "Blocked u \<notin> set ((workers s)[w := x])" if "x \<noteq> Blocked u" for u x
    using inv that by (intro not_in_update) (simp_all add: pool_inv_def)
  have "pool_inv env cfg (after_fetch env cfg w url html s1)"
  proof (cases "page_links env url html")
    case None
    show ?thesis
      using inv fc [of "leave_or_wait cfg s1"] nb [of "leave_or_wait cfg s1"]
      unfolding after_fetch_None [OF None]
      by (simp add: pool_inv_def s1)
  next
    case (Some ls)
    note af = after_fetch_Some [OF Some, of cfg w s1]
    show ?thesis
      using inv fc [of "next_worker env cfg ls s1"] nb [of "next_worker env cfg ls s1"]
      unfolding pool_inv_def
      by (simp add: af s1) (auto dest: links_put_in_domain)
  qed
  then show ?thesis by (simp add: s1_def)
qed

lemma pool_inv_start_fetch:
  assumes inv: "pool_inv env cfg s" and w: "w < length (workers s)"
    and f: "workers s ! w = Waiting" and u: "url \<notin> set (seen s)"
    and d: "is_same_domain env url (allowed_domains cfg)"
  shows "pool_inv env cfg (start_fetch env cfg w url
           (s\<lparr>clock := c, queue := q, seen := seen s @ [url], trace := Seen url # trace s\<rparr>))"
proof -
  let ?s1 = "s\<lparr>clock := c, queue := q, seen := seen s @ [url], trace := Seen url # trace s\<rparr>"
  have "fetching_count (workers s) < length (workers s)"
    using fetching_count_less [OF w] f by simp
  then have p: "permits s \<noteq> 0" using inv by (auto simp: pool_inv_def)
  have base: "pool_inv env cfg ?s1"
    using inv u by (auto simp: pool_inv_def)
  show ?thesis
  proof (cases "falsy (api_key env)")
    case True
    have fc: "fetching_count ((workers s)[w := leave_or_wait cfg ?s1]) = fetching_count (workers s)"
      using fetching_count_update [OF w, of "leave_or_wait cfg ?s1"] f
      by simp
    have nb: "Blocked u \<notin> set ((workers s)[w := leave_or_wait cfg ?s1])" for u
      using inv by (intro not_in_update) (simp_all add: pool_inv_def)
    have "start_fetch env cfg w url ?s1 = after_fetch env cfg w url None ?s1"
      using True p by (simp add: start_fetch_def)
    also have "\<dots> = ?s1\<lparr>unfinished_tasks := unfinished_tasks ?s1 - 1,
                        workers := (workers ?s1)[w := leave_or_wait cfg ?s1]\<rparr>"
      by (rule after_fetch_None) (simp add: page_links_def)
    finally show ?thesis using base fc nb by (simp add: pool_inv_def)
  next
    case False
    have fc: "fetching_count ((workers s)[w := Fetching url]) = fetching_count (workers s) + 1"
      using fetching_count_update [OF w, of "Fetching url"] f
      by simp
    have nb: "Blocked u \<notin> set ((workers s)[w := Fetching url])" for u
      using inv by (intro not_in_update) (simp_all add: pool_inv_def)
    have "start_fetch env cfg w url ?s1 =
            ?s1\<lparr>permits := permits s - 1, trace := Request url 0 # Seen url # trace s,
                 workers := (workers s)[w := Fetching url]\<rparr>"
      using False p by (simp add: start_fetch_def)
    then show ?thesis using inv fc nb p u d by (auto simp: pool_inv_def)
  qed
qed

lemma pool_inv_step:
  assumes "pool_inv env cfg s" and "worker_step env cfg w s = Some s'"
  shows "pool_inv env cfg s'"
  using assms(2)
proof (cases rule: worker_step_cases)
  case (skip_seen url rest)
  then show ?thesis using assms(1) by (simp add: pool_inv_def)
next
  case (skip_domain url rest)
  then show ?thesis using assms(1) by (auto simp: pool_inv_def)
next
  case (start url rest)
  then show ?thesis using pool_inv_start_fetch [OF assms(1)] by simp
next
  case (unblock url)
  then have "Blocked url \<in> set (workers s)" by (metis nth_mem)
  then show ?thesis using assms(1) by (simp add: pool_inv_def)
next
  case (complete url)
  then show ?thesis using pool_inv_after_fetch [OF assms(1)] by simp
qed

lemma pool_inv_init: "pool_inv env cfg (init_pool cfg)"
  by (simp add: pool_inv_def init_pool_def fetching_count_def)

lemma pool_inv_exec:
  "exec env cfg sched (init_pool cfg) = Some s \<Longrightarrow> pool_inv env cfg s"
  by (erule exec_invariant [where P = "pool_inv env cfg"]) (auto intro: pool_inv_init pool_inv_step)

lemma count_inv_step:
  assumes i: "count_inv env cfg s" and st: "worker_step env cfg w s = Some s'"
  shows "count_inv env cfg s'"
proof -
  have p: "pool_inv env cfg s'" using i st pool_inv_step by (auto simp: count_inv_def)
  have u: "unfinished_tasks s
           = length (queue s) + fetching_count (workers s) + crashed_count (workers s)"
    using i by (simp add: count_inv_def)
  have "unfinished_tasks s'
        = length (queue s') + fetching_count (workers s') + crashed_count (workers s')"
    using st
  proof (cases rule: worker_step_cases)
    case (skip_seen url rest)
    then show ?thesis using u by simp
  next
    case (skip_domain url rest)
    then show ?thesis using u by simp
  next
    case (start url rest)
    let ?s1 = "s\<lparr>clock := Suc (clock s), queue := rest, seen := seen s @ [url],
                  trace := Seen url # trace s\<rparr>"
    have "fetching_count (workers s) < length (workers s)"
      using fetching_count_less [OF start(1)] start(2) by simp
    then have pm: "permits s \<noteq> 0" using i by (auto simp: count_inv_def pool_inv_def)
    show ?thesis
    proof (cases "falsy (api_key env)")
      case True
      have fc: "fetching_count ((workers s)[w := leave_or_wait cfg ?s1])
                = fetching_count (workers s)"
        using fetching_count_update [OF start(1), of "leave_or_wait cfg ?s1"] start(2) by simp
      have cc: "crashed_count ((workers s)[w := leave_or_wait cfg ?s1])
                = crashed_count (workers s)"
        using crashed_count_update [OF start(1), of "leave_or_wait cfg ?s1"] start(2) by simp
      have "start_fetch env cfg w url ?s1 = after_fetch env cfg w url None ?s1"
        using True pm by (simp add: start_fetch_def)
      also have "\<dots> = ?s1\<lparr>unfinished_tasks := unfinished_tasks ?s1 - 1,
                          workers := (workers ?s1)[w := leave_or_wait cfg ?s1]\<rparr>"
        by (rule after_fetch_None) (simp add: page_links_def)
      finally show ?thesis using start(3,6) u fc cc by simp
    next
      case False
      have fc: "fetching_count ((workers s)[w := Fetching url]) = fetching_count (workers s) + 1"
        using fetching_count_update [OF start(1), of "Fetching url"] start(2) by simp
      have cc: "crashed_count ((workers s)[w := Fetching url]) = crashed_count (workers s)"
        using crashed_count_update [OF start(1), of "Fetching url"] start(2) by simp
      have "s' = ?s1\<lparr>permits := permits s - 1, trace := Request url 0 # Seen url # trace s,
                     workers := (workers s)[w := Fetching url]\<rparr>"
        using False pm start(6) by (simp add: start_fetch_def)
      then show ?thesis using start(3) u fc cc by simp
    qed
  next
    case (unblock url)
    then have "Blocked url \<in> set (workers s)" by (metis nth_mem)
    then show ?thesis using i by (simp add: count_inv_def pool_inv_def)
  next
    case (complete url)
    define s1 where "s1 = s\<lparr>clock := Suc (clock s), permits := permits s + 1\<rparr>"
    have s1: "seen s1 = seen s" "queue s1 = queue s" "workers s1 = workers s"
      "unfinished_tasks s1 = unfinished_tasks s"
      by (simp_all add: s1_def)
    have s': "s' = after_fetch env cfg w url (fetch_result env (clock s) url) s1"
      using complete(3) by (simp add: s1_def)
    have fc: "fetching_count ((workers s)[w := x]) + 1 = fetching_count (workers s)"
      if "\<not> is_fetching x" for x
      using fetching_count_update [OF complete(1), of x] complete(2) that by simp
    have cc: "crashed_count ((workers s)[w := x])
              = crashed_count (workers s) + (if x = Crashed then 1 else 0)" for x
      using crashed_count_update [OF complete(1), of x] complete(2) by simp
    have pos: "0 < fetching_count (workers s)"
      using fc [of Waiting] by simp
    show ?thesis
    proof (cases "page_links env url (fetch_result env (clock s) url)")
      case None
      show ?thesis
        unfolding s' after_fetch_None [OF None]
        using u fc [of "leave_or_wait cfg s1"] cc [of "leave_or_wait cfg s1"]
        by (simp add: s1)
    next
      case (Some ls)
      note af = after_fetch_Some [OF Some, of cfg w s1]
      show ?thesis
      proof (cases "link_crash env cfg ls s1")
        case True
        then have nw: "next_worker env cfg ls s1 = Crashed" by (simp add: next_worker_def)
        show ?thesis
          unfolding s' using u fc [of Crashed] cc [of Crashed] True
          by (simp add: af s1 nw)
      next
        case False
        then have nw: "next_worker env cfg ls s1 = leave_or_wait cfg s1"
          by (simp add: next_worker_def)
        show ?thesis
          unfolding s'
          using u fc [of "leave_or_wait cfg s1"] cc [of "leave_or_wait cfg s1"] False pos
          by (simp add: af s1 nw)
      qed
    qed
  qed
  then show ?thesis using p by (simp add: count_inv_def)
qed

lemma count_inv_exec:
  "exec env cfg sched (init_pool cfg) = Some s \<Longrightarrow> count_inv env cfg s"
proof (erule exec_invariant [where P = "count_inv env cfg"])
  show "count_inv env cfg (init_pool cfg)"
    by (simp add: count_inv_def pool_inv_init)
      (simp add: init_pool_def fetching_count_def crashed_count_def)
next
  fix w s s'
  assume "count_inv env cfg s" "worker_step env cfg w s = Some s'"
  then show "count_inv env cfg s'" by (rule count_inv_step)
qed

text \<open>A run that has no unfinished task is at its end: no worker can run.\<close>

lemma joined_is_final:
  assumes "exec env cfg sched (init_pool cfg) = Some s" and "unfinished_tasks s = 0"
  shows "worker_step env cfg w s = None"
proof -
  have c: "count_inv env cfg s" using assms(1) by (rule count_inv_exec)
  then have q: "queue s = []" and f: "fetching_count (workers s) = 0"
    using assms(2) by (simp_all add: count_inv_def)
  have nb: "Blocked u \<notin> set (workers s)" for u
    using c by (simp add: count_inv_def pool_inv_def)
  show ?thesis
  proof (cases "w < length (workers s)")
    case False
    then show ?thesis by (simp add: worker_step_def)
  next
    case True
    then have mem: "workers s ! w \<in> set (workers s)" by simp
    have "\<not> is_fetching (workers s ! w)"
    proof
      assume "is_fetching (workers s ! w)"
      then have "filter is_fetching (workers s) \<noteq> []"
        using mem by (auto simp: filter_empty_conv)
      then show False using f by (simp add: fetching_count_def)
    qed
    then show ?thesis
      using True mem nb q
      by (cases "workers s ! w") (auto simp: worker_step_def dequeue_def)
  qed
qed

lemma exec_append:
  "exec env cfg (xs @ ys) s =
     (case exec env cfg xs s of None \<Rightarrow> None | Some s' \<Rightarrow> exec env cfg ys s')"
  by (induction xs arbitrary: s) (auto split: option.splits)





section \<open>Facts about domains and candidates\<close>

lemma dom_inv_visit:
  assumes "dom_inv cfg st" and "url \<in> set (to_visit st)"
  shows "dom_inv cfg (visit_page env cfg url
           (mark_visited url (st\<lparr>to_visit := removeAll url (to_visit st)\<rparr>)))"
proof -
  let ?st1 = "mark_visited url (st\<lparr>to_visit := removeAll url (to_visit st)\<rparr>)"
  have st1: "dom_inv cfg ?st1"
    using assms by (auto simp: dom_inv_def mark_visited_def)
  show ?thesis
  proof (cases rule: visit_page_cases [of env cfg url ?st1])
    case dead
    then show ?thesis using st1 by (simp add: dom_inv_def)
  next
    case (unfiltered html)
    then show ?thesis using st1 by (simp add: dom_inv_def)
  next
    case (links html fl)
    let ?st2 = "?st1\<lparr>events := Links url (extract_links env (base_url cfg) html)
                                   # page_events env url (events ?st1)\<rparr>"
    have fl: "set fl \<subseteq> {u. passes_filter (allowed_domains cfg) u}"
      using set_filter_links [OF links(1)] by auto
    have st2: "dom_inv cfg ?st2" using st1 by (simp add: dom_inv_def)
    have tv: "set (to_visit (add_links cfg fl ?st2)) \<subseteq> set (to_visit ?st2) \<union> set fl"
      using add_links_to_visit [of cfg fl ?st2] by blast
    have pu: "set (product_urls (add_links cfg fl ?st2)) \<subseteq> set (product_urls ?st2) \<union> set fl"
      unfolding add_links_product_urls by blast
    have v: "visited (add_links cfg fl ?st2) = visited ?st2" by (rule add_links_visited)
    have "dom_inv cfg (add_links cfg fl ?st2)"
      unfolding dom_inv_def v using st2 tv pu fl unfolding dom_inv_def by blast
    then show ?thesis unfolding links(2) .
  qed
qed

lemma dom_inv_crawl: "dom_inv cfg (crawl_with_scrapingbee env cfg)"
  unfolding crawl_with_scrapingbee_def
proof (rule crawl_loop_invariant [where P = "dom_inv cfg"])
  show "dom_inv cfg (init_state cfg)" by (simp add: dom_inv_def init_state_def)
next
  fix st :: crawl_state and url
  assume "dom_inv cfg st" "url \<in> set (to_visit st)"
  then show "dom_inv cfg (visit_page env cfg url
               (mark_visited url (st\<lparr>to_visit := removeAll url (to_visit st)\<rparr>)))"
    by (rule dom_inv_visit)
next
  fix st :: crawl_state and url
  assume "dom_inv cfg st"
  then show "dom_inv cfg (st\<lparr>to_visit := removeAll url (to_visit st)\<rparr>)"
    by (auto simp: dom_inv_def)
qed

lemma links_inv_visit:
  assumes "links_inv cfg st"
  shows "links_inv cfg (visit_page env cfg url (mark_visited url (st\<lparr>to_visit := tv\<rparr>)))"
proof -
  let ?st1 = "mark_visited url (st\<lparr>to_visit := tv\<rparr>)"
  have e: "Links p ls \<in> set (page_events env url (events ?st1)) \<longleftrightarrow> Links p ls \<in> set (events st)"
    for p ls
    by (simp add: page_events_Links mark_visited_def)
  have pu: "product_urls ?st1 = product_urls st" by (simp add: mark_visited_def)
  show ?thesis
  proof (cases rule: visit_page_cases [of env cfg url ?st1])
    case dead
    then show ?thesis using assms e pu by (simp add: links_inv_def)
  next
    case (unfiltered html)
    let ?ls = "extract_links env (base_url cfg) html"
    have "l \<in> set (product_urls st)"
      if "Links p ls \<in> set (Links url ?ls # page_events env url (events ?st1))"
        "filter_links (allowed_domains cfg) ls [] = Returns fl" "l \<in> set fl"
        "is_product_url l (product_url_keywords cfg)" for p ls fl l
    proof -
      have "ls \<noteq> ?ls" using that(2) unfiltered(1) by auto
      then have "Links p ls \<in> set (events st)" using that(1) e by simp
      then show ?thesis using assms that(2,3,4) unfolding links_inv_def by blast
    qed
    then show ?thesis unfolding unfiltered(2) links_inv_def using pu by simp
  next
    case (links html fl)
    let ?ls = "extract_links env (base_url cfg) html"
    let ?st2 = "?st1\<lparr>events := Links url ?ls # page_events env url (events ?st1)\<rparr>"
    have ev: "events (add_links cfg fl ?st2) = Links url ?ls # page_events env url (events ?st1)"
      by (simp add: add_links_events)
    have pr: "set (product_urls (add_links cfg fl ?st2)) =
              set (product_urls st) \<union> {l \<in> set fl. is_product_url l (product_url_keywords cfg)}"
      by (simp add: add_links_product_urls pu)
    have "l \<in> set (product_urls (add_links cfg fl ?st2))"
      if "Links p ls \<in> set (Links url ?ls # page_events env url (events ?st1))"
        "filter_links (allowed_domains cfg) ls [] = Returns fl'" "l \<in> set fl'"
        "is_product_url l (product_url_keywords cfg)" for p ls fl' l
    proof (cases "ls = ?ls")
      case True
      then have "fl' = fl" using that(2) links(1) by simp
      then show ?thesis using that(3,4) pr by simp
    next
      case False
      then have "Links p ls \<in> set (events st)" using that(1) e by simp
      then have "l \<in> set (product_urls st)"
        using assms that(2,3,4) unfolding links_inv_def by blast
      then show ?thesis using pr by simp
    qed
    then have "links_inv cfg (add_links cfg fl ?st2)"
      unfolding links_inv_def ev by blast
    then show ?thesis unfolding links(2) .
  qed
qed

lemma links_inv_crawl: "links_inv cfg (crawl_with_scrapingbee env cfg)"
  unfolding crawl_with_scrapingbee_def
proof (rule crawl_loop_invariant [where P = "links_inv cfg"])
  show "links_inv cfg (init_state cfg)" by (simp add: links_inv_def init_state_def)
next
  fix st :: crawl_state and url
  assume "links_inv cfg st"
  then show "links_inv cfg (visit_page env cfg url
               (mark_visited url (st\<lparr>to_visit := removeAll url (to_visit st)\<rparr>)))"
    by (rule links_inv_visit)
next
  fix st :: crawl_state and url
  assume "links_inv cfg st"
  then show "links_inv cfg (st\<lparr>to_visit := removeAll url (to_visit st)\<rparr>)"
    by (simp add: links_inv_def)
qed

lemma cand_inv_after_fetch_None:
  assumes "cand_inv env cfg s"
  shows "cand_inv env cfg (s\<lparr>unfinished_tasks := n, workers := ws\<rparr>)"
  using assms by (simp add: cand_inv_def)

lemma cand_inv_start_fetch:
  assumes "cand_inv env cfg s"
  shows "cand_inv env cfg (start_fetch env cfg w url s)"
proof -
  have "start_fetch env cfg w url s = s\<lparr>workers := (workers s)[w := Blocked url]\<rparr>
      \<or> start_fetch env cfg w url s =
          s\<lparr>unfinished_tasks := unfinished_tasks s - 1,
            workers := (workers s)[w := leave_or_wait cfg s]\<rparr>
      \<or> start_fetch env cfg w url s =
          s\<lparr>permits := permits s - 1, trace := Request url 0 # trace s,
            workers := (workers s)[w := Fetching url]\<rparr>"
    by (simp add: start_fetch_def after_fetch_None page_links_def)
  then show ?thesis using assms by (elim disjE) (simp_all add: cand_inv_def)
qed

lemma cand_inv_after_fetch:
  assumes "cand_inv env cfg s"
  shows "cand_inv env cfg (after_fetch env cfg w url html s)"
proof (cases "page_links env url html")
  case None
  show ?thesis
    unfolding after_fetch_None [OF None] using assms by (simp add: cand_inv_def)
next
  case (Some ls)
  note af = after_fetch_Some [OF Some, of cfg w s]
  let ?s' = "after_fetch env cfg w url html s"
  have sub: "set (product_candidates s) \<subseteq> set (product_candidates ?s')"
    by (auto simp: af)
  have put: "l \<in> set (product_candidates ?s')"
    if "l \<in> set (links_put env cfg ls s)" "matches cfg l" for l
    using that by (simp add: af)
  have a: "u = base_url cfg \<or> (matches cfg u \<longrightarrow> u \<in> set (product_candidates ?s'))"
    if "u \<in> set (seen ?s') \<union> set (queue ?s')" for u
  proof (cases "u \<in> set (links_put env cfg ls s)")
    case True
    then show ?thesis using put by blast
  next
    case False
    then have "u \<in> set (seen s) \<union> set (queue s)" using that by (auto simp: af)
    then show ?thesis using assms sub unfolding cand_inv_def by blast
  qed
  have b: "l = base_url cfg \<or> l \<in> set (product_candidates ?s')"
    if "Links p ls' \<in> set (trace ?s')" "safe_links env cfg ls'" "l \<in> set ls'"
      "is_same_domain env l (allowed_domains cfg)" "matches cfg l" for p ls' l
  proof (cases "Links p ls' \<in> set (trace s)")
    case True
    then show ?thesis using assms sub that(2,3,4,5) unfolding cand_inv_def by blast
  next
    case False
    then have eq: "ls' = ls" using that(1) by (simp add: af)
    show ?thesis
    proof (cases "l \<in> set (seen s)")
      case True
      then show ?thesis using assms sub that(5) unfolding cand_inv_def by blast
    next
      case False
      then have "l \<in> set (new_links env cfg ls s)"
        using that(3,4) eq by (simp add: new_links_def)
      moreover have "links_put env cfg ls s = new_links env cfg ls s"
        using that(2) eq by (simp add: links_put_complete safe_links_no_crash)
      ultimately show ?thesis using put that(5) by simp
    qed
  qed
  show ?thesis
    unfolding cand_inv_def using a b by blast
qed

lemma cand_inv_step:
  assumes "cand_inv env cfg s" and "worker_step env cfg w s = Some s'"
  shows "cand_inv env cfg s'"
  using assms(2)
proof (cases rule: worker_step_cases)
  case (skip_seen url rest)
  then show ?thesis using assms(1) by (simp add: cand_inv_def)
next
  case (skip_domain url rest)
  then show ?thesis using assms(1) by (simp add: cand_inv_def)
next
  case (start url rest)
  have "cand_inv env cfg (s\<lparr>clock := Suc (clock s), queue := rest, seen := seen s @ [url],
                            trace := Seen url # trace s\<rparr>)"
    using assms(1) start(3) by (simp add: cand_inv_def)
  then show ?thesis unfolding start(6) by (rule cand_inv_start_fetch)
next
  case (unblock url)
  have "cand_inv env cfg (s\<lparr>clock := Suc (clock s)\<rparr>)"
    using assms(1) by (simp add: cand_inv_def)
  then show ?thesis unfolding unblock(4) by (rule cand_inv_start_fetch)
next
  case (complete url)
  have "cand_inv env cfg (s\<lparr>clock := Suc (clock s), permits := permits s + 1\<rparr>)"
    using assms(1) by (simp add: cand_inv_def)
  then show ?thesis unfolding complete(3) by (rule cand_inv_after_fetch)
qed

lemma cand_inv_exec:
  "exec env cfg sched (init_pool cfg) = Some s \<Longrightarrow> cand_inv env cfg s"
proof (erule exec_invariant [where P = "cand_inv env cfg"])
  show "cand_inv env cfg (init_pool cfg)" by (simp add: cand_inv_def init_pool_def)
next
  fix w s s'
  assume "cand_inv env cfg s" "worker_step env cfg w s = Some s'"
  then show "cand_inv env cfg s'" by (rule cand_inv_step)
qed

text \<open>The trace and the candidate set of a run only grow.\<close>

lemma start_fetch_grows:
  "set (trace s) \<subseteq> set (trace (start_fetch env cfg w url s))
   \<and> set (product_candidates s) \<subseteq> set (product_candidates (start_fetch env cfg w url s))"
proof -
  have "start_fetch env cfg w url s = s\<lparr>workers := (workers s)[w := Blocked url]\<rparr>
      \<or> start_fetch env cfg w url s =
          s\<lparr>unfinished_tasks := unfinished_tasks s - 1,
            workers := (workers s)[w := leave_or_wait cfg s]\<rparr>
      \<or> start_fetch env cfg w url s =
          s\<lparr>permits := permits s - 1, trace := Request url 0 # trace s,
            workers := (workers s)[w := Fetching url]\<rparr>"
    by (simp add: start_fetch_def after_fetch_None page_links_def)
  then show ?thesis by (elim disjE) auto
qed

lemma after_fetch_grows:
  "set (trace s) \<subseteq> set (trace (after_fetch env cfg w url html s))
   \<and> set (product_candidates s) \<subseteq> set (product_candidates (after_fetch env cfg w url html s))"
proof (cases "page_links env url html")
  case None
  show ?thesis unfolding after_fetch_None [OF None] by simp
next
  case (Some ls)
  show ?thesis using after_fetch_Some [OF Some, of cfg w s] by auto
qed

lemma worker_step_grows:
  assumes "worker_step env cfg w s = Some s'"
  shows "set (trace s) \<subseteq> set (trace s')
       \<and> set (product_candidates s) \<subseteq> set (product_candidates s')"
  using assms
proof (cases rule: worker_step_cases)
  case (skip_seen url rest)
  then show ?thesis by simp
next
  case (skip_domain url rest)
  then show ?thesis by auto
next
  case (start url rest)
  show ?thesis
    unfolding start(6)
    using start_fetch_grows [of "s\<lparr>clock := Suc (clock s), queue := rest,
        seen := seen s @ [url], trace := Seen url # trace s\<rparr>" env cfg w url]
    by auto
next
  case (unblock url)
  show ?thesis
    unfolding unblock(4)
    using start_fetch_grows [of "s\<lparr>clock := Suc (clock s)\<rparr>" env cfg w url] by auto
next
  case (complete url)
  show ?thesis
    unfolding complete(3)
    using after_fetch_grows [of "s\<lparr>clock := Suc (clock s), permits := permits s + 1\<rparr>"
        env cfg w url "fetch_result env (clock s) url"]
    by auto
qed

lemma exec_grows:
  assumes "exec env cfg sched s = Some s'"
  shows "set (trace s) \<subseteq> set (trace s')
       \<and> set (product_candidates s) \<subseteq> set (product_candidates s')"
  using assms
proof (induction sched arbitrary: s)
  case Nil
  then show ?case by simp
next
  case (Cons w ws)
  then obtain s1 where s1: "worker_step env cfg w s = Some s1" "exec env cfg ws s1 = Some s'"
    by (auto split: option.splits)
  show ?case using worker_step_grows [OF s1(1)] Cons.IH [OF s1(2)] by blast
qed

text \<open>
  What the two crawls do guarantee about domains: \<open>crawl_with_scrapingbee\<close> fetches,
  apart from the seed, only URLs whose netloc contains an allowed domain, and records
  only such URLs; the worker crawl fetches and records only URLs that \<open>is_same_domain\<close>
  accepts.
\<close>

lemma netloc_containment:
  "(u \<in> set (fetched (events (crawl_with_scrapingbee env cfg))) \<longrightarrow>
      u = base_url cfg \<or> passes_filter (allowed_domains cfg) u)
   \<and> (u \<in> set (product_urls (crawl_with_scrapingbee env cfg)) \<longrightarrow>
      passes_filter (allowed_domains cfg) u)
   \<and> (exec env cfg sched (init_pool cfg) = Some s \<longrightarrow>
      (u \<in> set (fetched (trace s)) \<longrightarrow> is_same_domain env u (allowed_domains cfg))
      \<and> (u \<in> set (product_candidates s) \<longrightarrow> is_same_domain env u (allowed_domains cfg)))"
proof -
  have t: "fetched (events (crawl_with_scrapingbee env cfg)) =
           rev (visited (crawl_with_scrapingbee env cfg))"
    using trace_inv_crawl [of env cfg] by (simp add: trace_inv_def)
  have d: "dom_inv cfg (crawl_with_scrapingbee env cfg)" by (rule dom_inv_crawl)
  have p: "pool_inv env cfg s" if "exec env cfg sched (init_pool cfg) = Some s"
    using that by (rule pool_inv_exec)
  show ?thesis
    using t d p by (auto simp: dom_inv_def pool_inv_def)
qed

section \<open>Facts about draining the frontier\<close>

lemma reach_inv_visit:
  assumes c: "closed_seq env cfg U" and i: "reach_inv U st" and u: "url \<in> set (to_visit st)"
    and n: "url \<notin> set (visited st)"
  shows "reach_inv U (visit_page env cfg url
           (mark_visited url (st\<lparr>to_visit := removeAll url (to_visit st)\<rparr>)))"
proof -
  let ?st1 = "mark_visited url (st\<lparr>to_visit := removeAll url (to_visit st)\<rparr>)"
  have st1: "reach_inv U ?st1"
    using i u n by (auto simp: reach_inv_def mark_visited_def)
  have uU: "url \<in> U" using i u by (auto simp: reach_inv_def)
  show ?thesis
  proof (cases rule: visit_page_cases_source [of env cfg url ?st1])
    case dead
    then show ?thesis using st1 by (simp add: reach_inv_def)
  next
    case (unfiltered html m k r)
    then show ?thesis using st1 by (simp add: reach_inv_def)
  next
    case (links html m k r fl)
    let ?ls = "extract_links env (base_url cfg) html"
    let ?st2 = "?st1\<lparr>events := Links url ?ls # page_events env url (events ?st1)\<rparr>"
    have fl: "set fl \<subseteq> U"
      using c uU links(1,2,3) set_filter_links [OF links(4)] unfolding closed_seq_def by auto
    have st2: "reach_inv U ?st2" using st1 by (simp add: reach_inv_def)
    have tv: "set (to_visit (add_links cfg fl ?st2)) \<subseteq> set (to_visit ?st2) \<union> set fl"
      using add_links_to_visit [of cfg fl ?st2] by blast
    have v: "visited (add_links cfg fl ?st2) = visited ?st2" by (rule add_links_visited)
    have "reach_inv U (add_links cfg fl ?st2)"
      unfolding reach_inv_def v using st2 tv fl unfolding reach_inv_def by blast
    then show ?thesis unfolding links(5) .
  qed
qed

lemma reach_inv_crawl:
  assumes "closed_seq env cfg U"
  shows "reach_inv U (crawl_with_scrapingbee env cfg)"
  unfolding crawl_with_scrapingbee_def
proof (rule crawl_loop_invariant [where P = "reach_inv U"])
  show "reach_inv U (init_state cfg)"
    using assms by (simp add: reach_inv_def init_state_def closed_seq_def)
next
  fix st :: crawl_state and url
  assume "reach_inv U st" "url \<in> set (to_visit st)" "url \<notin> set (visited st)"
  then show "reach_inv U (visit_page env cfg url
               (mark_visited url (st\<lparr>to_visit := removeAll url (to_visit st)\<rparr>)))"
    using reach_inv_visit [OF assms] by blast
next
  fix st :: crawl_state and url
  assume "reach_inv U st"
  then show "reach_inv U (st\<lparr>to_visit := removeAll url (to_visit st)\<rparr>)"
    by (auto simp: reach_inv_def)
qed

lemma crawl_loop_exit:
  "to_visit (crawl_loop env cfg k st) = []
   \<or> max_pages cfg \<le> int (length (visited (crawl_loop env cfg k st)))"
proof (induction env cfg k st rule: crawl_loop.induct)
  case (1 env cfg k st)
  show ?case
  proof (cases "to_visit st \<noteq> [] \<and> int (length (visited st)) < max_pages cfg")
    case False
    have "crawl_loop env cfg k st = st"
      by (subst crawl_loop.simps) (use False in auto)
    then show ?thesis using False by auto
  next
    case True
    show ?thesis
    proof (cases "pop_url env k (to_visit st) \<in> set (visited st)")
      case False
      show ?thesis
        using "1.IH"(1) [OF True False] crawl_loop_step [of st cfg env k] True False
        by simp
    next
      case t: True
      have eq: "crawl_loop env cfg k st = crawl_loop env cfg (Suc k)
                  (st\<lparr>to_visit := removeAll (pop_url env k (to_visit st)) (to_visit st)\<rparr>)"
        by (subst crawl_loop.simps) (use True t in auto)
      show ?thesis using "1.IH"(2) [OF True] t eq by simp
    qed
  qed
qed

lemma crawl_drains:
  assumes "closed_seq env cfg U" and "int (card U) < max_pages cfg"
  shows "to_visit (crawl_with_scrapingbee env cfg) = []
       \<and> set (visited (crawl_with_scrapingbee env cfg)) \<subseteq> U"
proof -
  let ?st = "crawl_with_scrapingbee env cfg"
  have r: "reach_inv U ?st" using assms(1) by (rule reach_inv_crawl)
  have f: "finite U" using assms(1) by (simp add: closed_seq_def)
  have "length (visited ?st) = card (set (visited ?st))"
    using r by (simp add: reach_inv_def distinct_card)
  also have "\<dots> \<le> card U"
    using r f by (auto simp: reach_inv_def intro: card_mono)
  finally have "int (length (visited ?st)) < max_pages cfg" using assms(2) by linarith
  moreover have "to_visit ?st = [] \<or> max_pages cfg \<le> int (length (visited ?st))"
    unfolding crawl_with_scrapingbee_def by (rule crawl_loop_exit)
  ultimately show ?thesis using r by (auto simp: reach_inv_def)
qed

lemma canonical_all_distinct:
  "canonical_all env base hrefs acc = Returns ls \<Longrightarrow> distinct acc \<Longrightarrow> distinct ls"
proof (induction hrefs arbitrary: acc)
  case Nil
  then show ?case by simp
next
  case (Cons h hrefs)
  show ?case
  proof (cases "canonical_url env base h")
    case Raises
    then show ?thesis using Cons.prems by simp
  next
    case (Returns v)
    show ?thesis
    proof (cases v)
      case None
      then show ?thesis using Returns Cons by simp
    next
      case (Some url)
      then show ?thesis
        using Returns Cons.prems Cons.IH [of "if url \<noteq> [] then set_add url acc else acc"]
        by (simp add: distinct_set_add split: if_splits)
    qed
  qed
qed

lemma distinct_extract_links: "distinct (extract_links env base html)"
  using canonical_all_distinct [of env base _ "[]"]
  by (auto simp: extract_links_def split: result.splits)

lemma potential_drop:
  assumes "a' + f' + 1 \<le> a + f" and "q' \<le> q + N"
  shows "(N + 1) * (a' + f') + q' < (N + 1) * (a + f) + (q :: nat)"
proof -
  have "(N + 1) * (a' + f' + 1) \<le> (N + 1) * (a + f)"
    using assms(1) by (rule mult_le_mono2)
  then have "(N + 1) * (a' + f') + N + 1 \<le> (N + 1) * (a + f)"
    by (simp add: algebra_simps)
  then show ?thesis using assms(2) by linarith
qed

lemma potential_less:
  assumes "(N - length (seen s')) + fetching_count (workers s') + 1
           \<le> (N - length (seen s)) + fetching_count (workers s)"
    and "length (queue s') \<le> length (queue s) + N"
  shows "potential N s' < potential N s"
  unfolding potential_def by (rule potential_drop [OF assms])

lemma potential_less_queue:
  assumes "(N - length (seen s')) + fetching_count (workers s')
           = (N - length (seen s)) + fetching_count (workers s)"
    and "length (queue s') < length (queue s)"
  shows "potential N s' < potential N s"
  unfolding potential_def using assms by simp

lemma seen_room:
  assumes "finite U" "distinct xs" "set xs \<subseteq> U" "u \<in> U" "u \<notin> set xs"
  shows "length xs < card U"
proof -
  have "set xs \<subset> U" using assms by blast
  then have "card (set xs) < card U" using assms(1) by (simp add: psubset_card_mono)
  then show ?thesis using assms(2) by (simp add: distinct_card)
qed

lemma new_links_bound:
  assumes "finite U" "distinct ls" "set (new_links env cfg ls s) \<subseteq> U"
  shows "length (new_links env cfg ls s) \<le> card U"
proof -
  have "distinct (new_links env cfg ls s)" using assms(2) by (simp add: new_links_def)
  then have "length (new_links env cfg ls s) = card (set (new_links env cfg ls s))"
    by (simp add: distinct_card)
  also have "\<dots> \<le> card U" using assms(1,3) by (rule card_mono)
  finally show ?thesis .
qed

lemma stays_waiting:
  "int (length (seen s)) < max_pages cfg \<Longrightarrow> leave_or_wait cfg s = Waiting"
  by (simp add: leave_or_wait_def)

lemma after_fetch_Some_safe:
  assumes "page_links env url html = Some ls" and "safe_links env cfg ls"
  shows "seen (after_fetch env cfg w url html s) = seen s
   \<and> permits (after_fetch env cfg w url html s) = permits s
   \<and> queue (after_fetch env cfg w url html s) = queue s @ new_links env cfg ls s
   \<and> unfinished_tasks (after_fetch env cfg w url html s)
       = unfinished_tasks s + length (new_links env cfg ls s) - 1
   \<and> workers (after_fetch env cfg w url html s) = (workers s)[w := leave_or_wait cfg s]"
  using after_fetch_Some [OF assms(1), of cfg w s] safe_links_no_crash [OF assms(2), of s]
  by (simp add: links_put_complete next_worker_def)


lemma drain_step:
  assumes c: "closed_pool env cfg U" and m: "int (card U) < max_pages cfg"
    and i: "drain_inv cfg U s" and st: "worker_step env cfg w s = Some s'"
  shows "drain_inv cfg U s' \<and> potential (card U) s' < potential (card U) s"
proof -
  have fin: "finite U" using c by (simp add: closed_pool_def)
  have len: "length (seen s) \<le> card U"
    using i fin by (auto simp: drain_inv_def distinct_card [symmetric] intro: card_mono)
  show ?thesis
    using st
  proof (cases rule: worker_step_cases)
    case (skip_seen url rest)
    have "drain_inv cfg U s'"
      using i skip_seen by (auto simp: drain_inv_def)
    moreover have "potential (card U) s' < potential (card U) s"
      by (rule potential_less_queue) (simp_all add: skip_seen)
    ultimately show ?thesis by blast
  next
    case (skip_domain url rest)
    have room: "length (seen s) < card U"
      using seen_room [OF fin, of "seen s" url] i skip_domain(3,4)
      by (auto simp: drain_inv_def)
    have "drain_inv cfg U s'"
      using i skip_domain by (auto simp: drain_inv_def)
    moreover have "potential (card U) s' < potential (card U) s"
      by (rule potential_less) (use room in \<open>simp_all add: skip_domain\<close>)
    ultimately show ?thesis by blast
  next
    case (start url rest)
    let ?s1 = "s\<lparr>clock := Suc (clock s), queue := rest, seen := seen s @ [url],
                  trace := Seen url # trace s\<rparr>"
    have room: "length (seen s) < card U"
      using seen_room [OF fin, of "seen s" url] i start(3,4)
      by (auto simp: drain_inv_def)
    have uU: "url \<in> U" using i start(3) by (auto simp: drain_inv_def)
    have "fetching_count (workers s) < length (workers s)"
      using fetching_count_less [OF start(1)] start(2) by simp
    then have p: "permits s \<noteq> 0" using i by (auto simp: drain_inv_def)
    have w1: "leave_or_wait cfg ?s1 = Waiting"
      using room m by (intro stays_waiting) simp
    show ?thesis
    proof (cases "falsy (api_key env)")
      case True
      have "start_fetch env cfg w url ?s1 = after_fetch env cfg w url None ?s1"
        using True p by (simp add: start_fetch_def)
      also have "\<dots> = ?s1\<lparr>unfinished_tasks := unfinished_tasks ?s1 - 1,
                          workers := (workers ?s1)[w := leave_or_wait cfg ?s1]\<rparr>"
        by (rule after_fetch_None) (simp add: page_links_def)
      finally have s': "s' = ?s1\<lparr>unfinished_tasks := unfinished_tasks s - 1,
                                 workers := (workers s)[w := Waiting]\<rparr>"
        using start(6) w1 by simp
      have ws: "(workers s)[w := Waiting] = workers s"
        using start(1,2) by (metis list_update_id)
      have "drain_inv cfg U s'"
        using i start(3,4) unfolding s' ws by (auto simp: drain_inv_def)
      moreover have "potential (card U) s' < potential (card U) s"
        by (rule potential_less) (use room in \<open>simp_all add: s' ws start(3)\<close>)
      ultimately show ?thesis by blast
    next
      case False
      have s': "s' = ?s1\<lparr>permits := permits s - 1, trace := Request url 0 # Seen url # trace s,
                         workers := (workers s)[w := Fetching url]\<rparr>"
        using False p start(6) by (simp add: start_fetch_def)
      have fc: "fetching_count ((workers s)[w := Fetching url]) = fetching_count (workers s) + 1"
        using fetching_count_update [OF start(1), of "Fetching url"] start(2) by simp
      have sub: "set ((workers s)[w := Fetching url]) \<subseteq> insert (Fetching url) (set (workers s))"
        by (rule set_update_subset_insert)
      have "drain_inv cfg U s'"
        using i start(3,4) uU fc sub p unfolding s' by (auto simp: drain_inv_def)
      moreover have "potential (card U) s' < potential (card U) s"
        by (rule potential_less_queue) (use room in \<open>simp_all add: s' fc start(3)\<close>)
      ultimately show ?thesis by blast
    qed
  next
    case (unblock url)
    then have "Blocked url \<in> set (workers s)" by (metis nth_mem)
    then show ?thesis using i by (simp add: drain_inv_def)
  next
    case (complete url)
    define s1 where "s1 = s\<lparr>clock := Suc (clock s), permits := permits s + 1\<rparr>"
    have s1: "seen s1 = seen s" "queue s1 = queue s" "workers s1 = workers s"
      "permits s1 = permits s + 1" "unfinished_tasks s1 = unfinished_tasks s"
      by (simp_all add: s1_def)
    have s': "s' = after_fetch env cfg w url (fetch_result env (clock s) url) s1"
      using complete(3) by (simp add: s1_def)
    have fu: "Fetching url \<in> set (workers s)" using complete(1,2) by (metis nth_mem)
    then have uU: "url \<in> U" using i by (simp add: drain_inv_def)
    have w1: "leave_or_wait cfg s1 = Waiting"
      using len m by (intro stays_waiting) (simp add: s1)
    have fc: "fetching_count ((workers s)[w := Waiting]) + 1 = fetching_count (workers s)"
      using fetching_count_update [OF complete(1), of Waiting] complete(2) by simp
    have sub: "set ((workers s)[w := Waiting]) \<subseteq> insert Waiting (set (workers s))"
      by (rule set_update_subset_insert)
    show ?thesis
    proof (cases "page_links env url (fetch_result env (clock s) url)")
      case None
      have e: "s' = s1\<lparr>unfinished_tasks := unfinished_tasks s1 - 1,
                       workers := (workers s1)[w := Waiting]\<rparr>"
        unfolding s' after_fetch_None [OF None] w1 ..
      have "drain_inv cfg U s'"
        using i fc sub unfolding e by (auto simp: drain_inv_def s1)
      moreover have "potential (card U) s' < potential (card U) s"
        by (rule potential_less) (use fc in \<open>simp_all add: e s1\<close>)
      ultimately show ?thesis by blast
    next
      case (Some ls)
      obtain h where h: "fetch_result env (clock s) url = Some h" "ls = extract_links env url h"
        using Some by (auto simp: page_links_def split: option.splits if_splits)
      have cl: "l \<in> U \<and> urlparse l \<noteq> Raises"
        if "l \<in> set ls" "is_same_domain env l (allowed_domains cfg)" for l
        using c uU h that unfolding closed_pool_def by blast
      have sl: "safe_links env cfg ls" using cl by (simp add: safe_links_def)
      note af = after_fetch_Some_safe [OF Some sl, of w s1]
      have nl: "set (new_links env cfg ls s1) \<subseteq> U"
        using cl unfolding new_links_def by auto
      have d: "distinct ls" unfolding h(2) by (rule distinct_extract_links)
      have nb: "length (new_links env cfg ls s1) \<le> card U"
        using fin d nl by (rule new_links_bound)
      have f1: "0 < fetching_count (workers s)" using fc by linarith
      have "drain_inv cfg U s'"
        unfolding drain_inv_def s'
        using i fc sub nl f1 by (simp add: af s1 w1 drain_inv_def) auto
      moreover have "potential (card U) s' < potential (card U) s"
        by (rule potential_less) (use fc nb in \<open>simp_all add: s' af s1 w1\<close>)
      ultimately show ?thesis by blast
    qed
  qed
qed


lemma drain_exec:
  assumes c: "closed_pool env cfg U" and m: "int (card U) < max_pages cfg"
  shows "exec env cfg sched s = Some s' \<Longrightarrow> drain_inv cfg U s \<Longrightarrow>
         drain_inv cfg U s' \<and> length sched + potential (card U) s' \<le> potential (card U) s"
proof (induction sched arbitrary: s)
  case Nil
  then show ?case by simp
next
  case (Cons w ws)
  then obtain s1 where s1: "worker_step env cfg w s = Some s1" "exec env cfg ws s1 = Some s'"
    by (auto split: option.splits)
  have d: "drain_inv cfg U s1 \<and> potential (card U) s1 < potential (card U) s"
    using drain_step [OF c m Cons.prems(2) s1(1)] .
  then have "drain_inv cfg U s' \<and> length ws + potential (card U) s' \<le> potential (card U) s1"
    using Cons.IH [OF s1(2)] by blast
  then show ?case using d by simp
qed

lemma drain_inv_init:
  "closed_pool env cfg U \<Longrightarrow> drain_inv cfg U (init_pool cfg)"
  by (simp add: drain_inv_def init_pool_def closed_pool_def fetching_count_def)

lemma potential_init: "potential N (init_pool cfg) = (N + 1) * N + 1"
  by (simp add: potential_def init_pool_def fetching_count_def)

lemma fetching_can_step:
  assumes "w < length (workers s)" "workers s ! w = Fetching u"
  shows "worker_step env cfg w s \<noteq> None"
  using assms by (simp add: worker_step_def)

lemma waiting_can_step:
  assumes "w < length (workers s)" "workers s ! w = Waiting" "queue s \<noteq> []"
  shows "worker_step env cfg w s \<noteq> None"
  using assms by (auto simp: worker_step_def dequeue_def split: list.splits)

lemma drain_progress:
  assumes i: "drain_inv cfg U s" and c: "0 < concurrency cfg" and u: "unfinished_tasks s \<noteq> 0"
  shows "\<exists>w. worker_step env cfg w s \<noteq> None"
proof (cases "fetching_count (workers s) = 0")
  case False
  then have "filter is_fetching (workers s) \<noteq> []" by (simp add: fetching_count_def)
  then obtain x where x: "x \<in> set (workers s)" "is_fetching x"
    by (metis filter_False)
  then obtain w where w: "w < length (workers s)" "workers s ! w = x"
    by (auto simp: in_set_conv_nth)
  obtain v where "x = Fetching v" using x(2) by (cases x) simp_all
  then show ?thesis using fetching_can_step [OF w(1)] w(2) by blast
next
  case True
  then have q: "queue s \<noteq> []" using i u by (auto simp: drain_inv_def)
  have l: "0 < length (workers s)" using i c by (simp add: drain_inv_def)
  then have mem: "workers s ! 0 \<in> set (workers s)" by simp
  have nf: "\<not> is_fetching (workers s ! 0)"
  proof
    assume "is_fetching (workers s ! 0)"
    then have "filter is_fetching (workers s) \<noteq> []"
      using mem by (auto simp: filter_empty_conv)
    then show False using True by (simp add: fetching_count_def)
  qed
  have "workers s ! 0 = Waiting"
    using i mem nf by (cases "workers s ! 0") (auto simp: drain_inv_def)
  then show ?thesis using waiting_can_step [OF l _ q] by blast
qed

lemma drain_completes:
  assumes c: "closed_pool env cfg U" and m: "int (card U) < max_pages cfg"
    and k: "0 < concurrency cfg"
  shows "drain_inv cfg U s \<Longrightarrow>
         \<exists>sched s'. exec env cfg sched s = Some s' \<and> unfinished_tasks s' = 0"
proof (induction "potential (card U) s" arbitrary: s rule: less_induct)
  case less
  show ?case
  proof (cases "unfinished_tasks s = 0")
    case True
    then have "exec env cfg [] s = Some s \<and> unfinished_tasks s = 0" by simp
    then show ?thesis by blast
  next
    case False
    obtain w s1 where s1: "worker_step env cfg w s = Some s1"
      using drain_progress [OF less.prems k False, of env] by auto
    have d: "drain_inv cfg U s1 \<and> potential (card U) s1 < potential (card U) s"
      using drain_step [OF c m less.prems s1] .
    then obtain sched s' where e: "exec env cfg sched s1 = Some s'" "unfinished_tasks s' = 0"
      using less.hyps by blast
    have "exec env cfg (w # sched) s = Some s' \<and> unfinished_tasks s' = 0"
      using s1 e by simp
    then show ?thesis by blast
  qed
qed

text \<open>
  Drain termination, as far as the source has it. Let the seed and the URLs reachable
  from it inside the allowed domains form a finite set that is strictly smaller than
  the page budget. Then \<open>crawl_with_scrapingbee\<close> ends with an empty queue (not by the
  budget), having visited URLs of that set only. And the worker crawl, with at least
  one worker and when \<open>urlparse\<close> accepts every link of the set, terminates under every
  schedule: a run has at most \<open>(n + 1) * n + 1\<close> steps for a set of \<open>n\<close> URLs, it sees URLs
  of the set only, at each point either \<open>join\<close> has returned or some worker can run, and
  every run can be continued to one on which \<open>crawl\<close> returns.
\<close>

lemma drain_termination:
  "(closed_seq env cfg U \<and> int (card U) < max_pages cfg \<longrightarrow>
      to_visit (crawl_with_scrapingbee env cfg) = []
      \<and> set (visited (crawl_with_scrapingbee env cfg)) \<subseteq> U)
   \<and> (closed_pool env cfg U \<and> int (card U) < max_pages cfg \<and> 0 < concurrency cfg
        \<and> exec env cfg sched (init_pool cfg) = Some s \<longrightarrow>
      length sched \<le> (card U + 1) * card U + 1
      \<and> set (seen s) \<subseteq> U
      \<and> (crawl env cfg sched = Returns (Some (product_candidates s))
          \<or> (\<exists>w. worker_step env cfg w s \<noteq> None))
      \<and> (\<exists>later result. crawl env cfg (sched @ later) = Returns (Some result)))"
proof -
  have a: "to_visit (crawl_with_scrapingbee env cfg) = []
           \<and> set (visited (crawl_with_scrapingbee env cfg)) \<subseteq> U"
    if "closed_seq env cfg U" "int (card U) < max_pages cfg"
    using that by (rule crawl_drains)
  have b: "length sched \<le> (card U + 1) * card U + 1
      \<and> set (seen s) \<subseteq> U
      \<and> (crawl env cfg sched = Returns (Some (product_candidates s))
          \<or> (\<exists>w. worker_step env cfg w s \<noteq> None))
      \<and> (\<exists>later result. crawl env cfg (sched @ later) = Returns (Some result))"
    if c: "closed_pool env cfg U" and m: "int (card U) < max_pages cfg"
      and k: "0 < concurrency cfg" and e: "exec env cfg sched (init_pool cfg) = Some s"
  proof -
    have d: "drain_inv cfg U s
             \<and> length sched + potential (card U) s \<le> potential (card U) (init_pool cfg)"
      using drain_exec [OF c m e drain_inv_init [OF c]] .
    then have l: "length sched \<le> (card U + 1) * card U + 1"
      by (simp add: potential_init)
    have sub: "set (seen s) \<subseteq> U" using d by (simp add: drain_inv_def)
    have p: "crawl env cfg sched = Returns (Some (product_candidates s))
             \<or> (\<exists>w. worker_step env cfg w s \<noteq> None)"
    proof (cases "unfinished_tasks s = 0")
      case True
      then show ?thesis using e k by (simp add: crawl_def)
    next
      case False
      then show ?thesis using drain_progress [of cfg U s env] d k by blast
    qed
    obtain later s' where f: "exec env cfg later s = Some s'" "unfinished_tasks s' = 0"
      using drain_completes [OF c m k, of s] d by blast
    have "crawl env cfg (sched @ later) = Returns (Some (product_candidates s'))"
      using e f k by (simp add: crawl_def exec_append)
    then show ?thesis using l sub p by blast
  qed
  show ?thesis using a b by blast
qed

section \<open>C3: the product URL heuristics\<close>

lemma is_product_url_iff:
  "is_product_url url ks \<longleftrightarrow> (\<exists>k\<in>set ks. \<exists>pre post. lower url = pre @ k @ post)"
  by (simp add: is_product_url_def any_iff str_in_iff)

lemma looks_like_product_url_iff:
  "urlparse url = Returns p \<Longrightarrow>
   looks_like_product_url url ks =
     Returns (\<exists>k\<in>set ks. \<exists>pre post. lower (path p) = pre @ k @ post)"
  by (simp add: looks_like_product_url_def any_iff str_in_iff)

text \<open>The path of a parsed URL holds neither the query string nor the fragment.\<close>

lemma set_splitparams: "set (fst (splitparams url)) \<subseteq> set url"
proof -
  define last_seg where "last_seg = rev (takeWhile (\<lambda>x. x \<noteq> CHR ''/'') (rev url))"
  define front where "front = rev (dropWhile (\<lambda>x. x \<noteq> CHR ''/'') (rev url))"
  have d: "set (dropWhile P xs) \<subseteq> set xs" for P and xs :: string
    by (auto dest: set_dropWhileD)
  have t: "set (takeWhile P xs) \<subseteq> set xs" for P and xs :: string
    by (auto dest: set_takeWhileD)
  have f: "set front \<subseteq> set url"
    using d [of "\<lambda>x. x \<noteq> CHR ''/''" "rev url"] by (simp add: front_def)
  have l: "set last_seg \<subseteq> set url"
    using t [of "\<lambda>x. x \<noteq> CHR ''/''" "rev url"] by (simp add: last_seg_def)
  have tl: "set (takeWhile (\<lambda>x. x \<noteq> CHR '';'') last_seg) \<subseteq> set url"
    using t [of "\<lambda>x. x \<noteq> CHR '';''" last_seg] l by blast
  have "fst (splitparams url) =
          (if CHR '';'' \<in> set last_seg
           then front @ takeWhile (\<lambda>x. x \<noteq> CHR '';'') last_seg else url)"
    by (simp add: splitparams_def Let_def last_seg_def front_def)
  then show ?thesis using f tl by simp
qed

lemma urlparse_path:
  assumes "urlparse url = Returns p"
  shows "CHR ''?'' \<notin> set (path p) \<and> CHR ''#'' \<notin> set (path p)"
proof -
  define url1 where "url1 = filter (\<lambda>c. \<not> unsafe_byte c) (dropWhile c0_or_space url)"
  define url3 where "url3 = snd (splitnetloc (snd (split_scheme url1)))"
  define url4 where "url4 = fst (split_first (CHR ''#'') url3)"
  define url5 where "url5 = fst (split_first (CHR ''?'') url4)"
  have p: "path p = url5 \<or> path p = fst (splitparams url5)"
    using assms
    by (auto simp: urlparse_def Let_def url1_def url3_def url4_def url5_def
        split: prod.splits if_splits)
  have "CHR ''#'' \<notin> set url4"
    using set_takeWhileD [of "CHR ''#''" "\<lambda>x. x \<noteq> CHR ''#''" url3]
    by (auto simp: url4_def split_first_def)
  then have "CHR ''#'' \<notin> set url5"
    using set_takeWhileD [of "CHR ''#''" "\<lambda>x. x \<noteq> CHR ''?''" url4]
    by (auto simp: url5_def split_first_def)
  moreover have "CHR ''?'' \<notin> set url5"
    using set_takeWhileD [of "CHR ''?''" "\<lambda>x. x \<noteq> CHR ''?''" url4]
    by (auto simp: url5_def split_first_def)
  ultimately show ?thesis using p set_splitparams [of url5] by auto
qed

text \<open>
  C3, as the spec states it, fails: \<open>_is_product_url\<close>, which \<open>crawl_with_scrapingbee\<close> and
  \<open>_crawl_page\<close> use, matches the keyword against the whole lower-cased URL, so a keyword
  in the query string classifies a URL whose path does not contain it. Neither
  function lower-cases the keywords, so a keyword with a capital letter never matches.
  And \<open>_looks_like_product_url\<close> returns neither true nor false on a URL that \<open>urlparse\<close>
  rejects: it raises \<open>ValueError\<close>.
\<close>

theorem C3_counterexample:
  "is_product_url ''https://shop.test/about?ref=product'' [''product'']
   \<and> urlparse ''https://shop.test/about?ref=product'' =
       Returns \<lparr>scheme = ''https'', netloc = ''shop.test'', path = ''/about'', params = [],
                 query = ''ref=product'', fragment = []\<rparr>
   \<and> \<not> ci_substring ''product'' ''/about''
   \<and> urlparse ''https://shop.test/product/1'' =
       Returns \<lparr>scheme = ''https'', netloc = ''shop.test'', path = ''/product/1'', params = [],
                 query = [], fragment = []\<rparr>
   \<and> ci_substring ''Product'' ''/product/1''
   \<and> looks_like_product_url ''https://shop.test/product/1'' [''Product''] = Returns False
   \<and> looks_like_product_url ''http://[::1/product'' [''product''] = Raises"
proof -
  have p1: "urlparse ''https://shop.test/about?ref=product'' =
       Returns \<lparr>scheme = ''https'', netloc = ''shop.test'', path = ''/about'', params = [],
                 query = ''ref=product'', fragment = []\<rparr>"
    by code_simp
  have p2: "urlparse ''https://shop.test/product/1'' =
       Returns \<lparr>scheme = ''https'', netloc = ''shop.test'', path = ''/product/1'', params = [],
                 query = [], fragment = []\<rparr>"
    by code_simp
  have l1: "lower ''/about'' = ''/about''" by code_simp
  have l2: "lower ''/product/1'' = ''/product/1''" by code_simp
  have l3: "lower ''product'' = ''product''" by code_simp
  have l4: "lower ''Product'' = ''product''" by code_simp
  have a: "is_product_url ''https://shop.test/about?ref=product'' [''product'']"
    by code_simp
  have b: "\<not> str_in ''product'' ''/about''" by code_simp
  have c: "str_in ''product'' ''/product/1''" by code_simp
  have d: "looks_like_product_url ''https://shop.test/product/1'' [''Product''] = Returns False"
    by code_simp
  have e: "looks_like_product_url ''http://[::1/product'' [''product''] = Raises"
    by code_simp
  have b': "\<not> ci_substring ''product'' ''/about''"
    using b unfolding ci_substring_def l1 l3 str_in_iff .
  have c': "ci_substring ''Product'' ''/product/1''"
    using c unfolding ci_substring_def l2 l4 str_in_iff .
  show ?thesis using a p1 b' p2 c' d e by blast
qed

text \<open>
  C3, amended: for keywords that are in lower case, \<open>_looks_like_product_url\<close> (used by
  the worker crawl) raises on a URL that \<open>urlparse\<close> rejects, and on any other URL it
  returns true exactly when some keyword is a case-insensitive substring of the URL's
  path, which holds neither the query string nor the fragment; \<open>_is_product_url\<close> (used
  by \<open>crawl_with_scrapingbee\<close> and \<open>_crawl_page\<close>) holds exactly when some keyword is a
  case-insensitive substring of the whole URL, host and query string included.
\<close>

theorem C3_product_url_heuristics:
  assumes "list_all (\<lambda>k. lower k = k) ks"
  shows "(urlparse url = Raises \<longrightarrow> looks_like_product_url url ks = Raises)
       \<and> (\<forall>p. urlparse url = Returns p \<longrightarrow>
             looks_like_product_url url ks = Returns (\<exists>k\<in>set ks. ci_substring k (path p))
             \<and> CHR ''?'' \<notin> set (path p) \<and> CHR ''#'' \<notin> set (path p))
       \<and> (is_product_url url ks \<longleftrightarrow> (\<exists>k\<in>set ks. ci_substring k url))"
proof -
  have lk: "\<And>k. k \<in> set ks \<Longrightarrow> lower k = k"
    using assms by (simp add: list_all_iff)
  have a: "urlparse url = Raises \<longrightarrow> looks_like_product_url url ks = Raises"
    by (simp add: looks_like_raises)
  have b: "looks_like_product_url url ks = Returns (\<exists>k\<in>set ks. ci_substring k (path p))"
    if "urlparse url = Returns p" for p
    unfolding looks_like_product_url_iff [OF that] ci_substring_def by (auto simp: lk)
  have c: "is_product_url url ks \<longleftrightarrow> (\<exists>k\<in>set ks. ci_substring k url)"
    unfolding is_product_url_iff ci_substring_def by (auto simp: lk)
  show ?thesis using a b c urlparse_path [of url] by blast
qed

theorem C3_product_url_heuristics_witness:
  "list_all (\<lambda>k. lower k = k) [''product'', ''caf'' @ [CHR 0xE9]]
   \<and> urlparse ''https://shop.test/Product/1?x=1#top'' =
       Returns \<lparr>scheme = ''https'', netloc = ''shop.test'', path = ''/Product/1'', params = [],
                 query = ''x=1'', fragment = ''top''\<rparr>
   \<and> looks_like_product_url ''https://shop.test/Product/1?x=1#top''
        [''product'', ''caf'' @ [CHR 0xE9]] = Returns True
   \<and> (\<exists>k\<in>set [''product'', ''caf'' @ [CHR 0xE9]]. ci_substring k ''/Product/1'')
   \<and> urlparse ''http://[::1/product'' = Raises
   \<and> looks_like_product_url ''http://[::1/product'' [''product'', ''caf'' @ [CHR 0xE9]] = Raises
   \<and> is_product_url (''https://shop.test/CAF'' @ [CHR 0xC9]) [''product'', ''caf'' @ [CHR 0xE9]]
   \<and> (\<exists>k\<in>set [''product'', ''caf'' @ [CHR 0xE9]].
         ci_substring k (''https://shop.test/CAF'' @ [CHR 0xC9]))"
proof -
  let ?ks = "[''product'', ''caf'' @ [CHR 0xE9]]"
  have h: "list_all (\<lambda>k. lower k = k) ?ks" by code_simp
  have p: "urlparse ''https://shop.test/Product/1?x=1#top'' =
       Returns \<lparr>scheme = ''https'', netloc = ''shop.test'', path = ''/Product/1'', params = [],
                 query = ''x=1'', fragment = ''top''\<rparr>"
    by code_simp
  have a: "looks_like_product_url ''https://shop.test/Product/1?x=1#top'' ?ks = Returns True"
    by code_simp
  have r: "urlparse ''http://[::1/product'' = Raises" by code_simp
  have b: "is_product_url (''https://shop.test/CAF'' @ [CHR 0xC9]) ?ks" by code_simp
  show ?thesis
    using h p a r b
      C3_product_url_heuristics [OF h, of "''https://shop.test/Product/1?x=1#top''"]
      C3_product_url_heuristics [OF h, of "''http://[::1/product''"]
      C3_product_url_heuristics [OF h, of "''https://shop.test/CAF'' @ [CHR 0xC9]"]
    by auto
qed

section \<open>C1: no duplicate fetch\<close>

lemma skip_seen_trace:
  assumes "w < length (workers s)" "workers s ! w = Waiting" "queue s = url # rest"
    "url \<in> set (seen s)"
  shows "map_option trace (worker_step env cfg w s) = Some (trace s)"
  using assms by (simp add: worker_step_def dequeue_def)

text \<open>
  C1: no URL is handed to the page fetcher for more than one page fetch (one retry
  sequence, which starts with the attempt numbered 0). In the sequential crawl and in
  every run of the worker pool, the URLs whose fetch was started are pairwise
  different, every request for a URL comes after that URL was added to the visited or
  seen set, the set holds every URL once, and a worker that takes an already seen URL
  out of the queue makes no request, however often the URL was enqueued.
\<close>

theorem C1_no_duplicate_fetch:
  "distinct (fetched (events (crawl_with_scrapingbee env cfg)))
   \<and> seen_before_request (events (crawl_with_scrapingbee env cfg))
   \<and> distinct (visited (crawl_with_scrapingbee env cfg))
   \<and> (exec env cfg sched (init_pool cfg) = Some s \<longrightarrow>
        distinct (fetched (trace s)) \<and> seen_before_request (trace s) \<and> distinct (seen s)
        \<and> (\<forall>w url rest. w < length (workers s) \<and> workers s ! w = Waiting
              \<and> queue s = url # rest \<and> url \<in> set (seen s) \<longrightarrow>
              map_option trace (worker_step env cfg w s) = Some (trace s)))"
proof -
  have a: "trace_inv (crawl_with_scrapingbee env cfg)" by (rule trace_inv_crawl)
  have b: "pool_inv env cfg s" if "exec env cfg sched (init_pool cfg) = Some s"
    using that by (rule pool_inv_exec)
  show ?thesis
    using a b skip_seen_trace [of _ s _ _ env cfg]
    by (auto simp: trace_inv_def pool_inv_def)
qed

lemma shop_run_exec: "exec shop_env shop_cfg shop_run (init_pool shop_cfg) \<noteq> None"
  by code_simp

theorem C1_no_duplicate_fetch_witness:
  "fetched (events (crawl_with_scrapingbee shop_env shop_cfg)) =
     [''https://shop.test/team.html'', ''https://shop.test/specs'',
      ''https://shop.test/product/2'', ''https://shop.test/about'',
      ''https://shop.test/product/1'', ''https://shop.test/'']
   \<and> distinct (fetched (events (crawl_with_scrapingbee shop_env shop_cfg)))
   \<and> seen_before_request (events (crawl_with_scrapingbee shop_env shop_cfg))
   \<and> exec shop_env shop_cfg shop_run (init_pool shop_cfg) \<noteq> None
   \<and> distinct (fetched (trace (the (exec shop_env shop_cfg shop_run (init_pool shop_cfg)))))
   \<and> seen_before_request (trace (the (exec shop_env shop_cfg shop_run (init_pool shop_cfg))))"
proof -
  have f: "fetched (events (crawl_with_scrapingbee shop_env shop_cfg)) =
     [''https://shop.test/team.html'', ''https://shop.test/specs'',
      ''https://shop.test/product/2'', ''https://shop.test/about'',
      ''https://shop.test/product/1'', ''https://shop.test/'']"
    by code_simp
  obtain s where s: "exec shop_env shop_cfg shop_run (init_pool shop_cfg) = Some s"
    using shop_run_exec by blast
  show ?thesis
    using f s C1_no_duplicate_fetch [of shop_env shop_cfg shop_run s]
    by simp
qed

section \<open>C2: the page budget\<close>

text \<open>
  C2 fails for both \<open>crawl\<close> functions. The batched crawl tests the budget once per
  batch: with a budget of two pages and batches of three it fetches four pages. The
  workers test it after their own fetch: with a budget of one page and two workers,
  the second worker fetches a second page.
\<close>

theorem C2_budget_exceeded:
  "max_pages batch_cfg = 2
   \<and> crawl_batched 3 shop_env batch_cfg \<noteq> None
   \<and> fetched (events (the (crawl_batched 3 shop_env batch_cfg))) =
       [''https://shop.test/product/2'', ''https://shop.test/about'',
        ''https://shop.test/product/1'', ''https://shop.test/'']
   \<and> max_pages pair_cfg = 1
   \<and> exec shop_env pair_cfg [0, 0, 1] (init_pool pair_cfg) \<noteq> None
   \<and> fetched (trace (the (exec shop_env pair_cfg [0, 0, 1] (init_pool pair_cfg)))) =
       [''https://shop.test/product/1'', ''https://shop.test/'']"
  by code_simp

section \<open>C4: the base of relative links\<close>

text \<open>
  C4 fails for \<open>crawl_with_scrapingbee\<close> and \<open>_crawl_page\<close>, which pass \<open>base_url\<close> to
  \<open>_extract_links\<close>: the relative link \<open>specs\<close> on the page \<open>/product/1\<close> becomes
  \<open>/specs\<close>. Resolved against the page's own URL it is \<open>/product/specs\<close>, which is what
  the worker of the last \<open>crawl\<close> computes.
\<close>

theorem C4_links_resolved_against_base_url:
  "Links ''https://shop.test/product/1'' [''https://shop.test/specs'']
     \<in> set (events (crawl_with_scrapingbee shop_env shop_cfg))
   \<and> crawl_page shop_env shop_cfg ''https://shop.test/product/1'' [] =
       (([''https://shop.test/specs''], []),
        [Links ''https://shop.test/product/1'' [''https://shop.test/specs''],
         Request ''https://shop.test/product/1'' 0])
   \<and> extract_links shop_env ''https://shop.test/product/1'' ''specs'' =
       [''https://shop.test/product/specs'']
   \<and> exec shop_env shop_cfg shop_run (init_pool shop_cfg) \<noteq> None
   \<and> Links ''https://shop.test/product/1'' [''https://shop.test/product/specs'']
     \<in> set (trace (the (exec shop_env shop_cfg shop_run (init_pool shop_cfg))))"
  by code_simp

section \<open>C5: domain containment\<close>

text \<open>
  C5 fails for \<open>crawl_with_scrapingbee\<close>. Its filter, which the source announces with the comment
  \<open>Filter links to allowed domains\<close>, looks for the allowed domain in the netloc, and
  the netloc holds the user information and the port as well as the host: a link to the
  host \<open>evil.test\<close> with the user name \<open>shop.test\<close> passes the filter, is recorded as a
  product and is fetched. And the seed is fetched without any test of its domain, also
  when a page links to it. The worker crawl, which tests the seed and every link with
  \<open>is_same_domain\<close>, fetches and records neither of the two.
\<close>

theorem C5_foreign_host_fetched:
  "allowed_domains shop_cfg = [''shop.test'']
   \<and> Links ''https://shop.test/'' [''https://shop.test@evil.test/product/9'']
     \<in> set (events (crawl_with_scrapingbee phish_env shop_cfg))
   \<and> urlparse ''https://shop.test@evil.test/product/9'' =
       Returns \<lparr>scheme = ''https'', netloc = ''shop.test@evil.test'', path = ''/product/9'',
                 params = [], query = [], fragment = []\<rparr>
   \<and> hostname \<lparr>scheme = ''https'', netloc = ''shop.test@evil.test'', path = ''/product/9'',
                 params = [], query = [], fragment = []\<rparr> = ''evil.test''
   \<and> fetched (events (crawl_with_scrapingbee phish_env shop_cfg)) =
       [''https://shop.test@evil.test/product/9'', ''https://shop.test/'']
   \<and> product_urls (crawl_with_scrapingbee phish_env shop_cfg) =
       [''https://shop.test@evil.test/product/9'']
   \<and> crawl phish_env shop_cfg [0, 0] = Returns (Some [])
   \<and> fetched (trace (the (exec phish_env shop_cfg [0, 0] (init_pool shop_cfg)))) =
       [''https://shop.test/'']
   \<and> allowed_domains outside_cfg = [''other.test'']
   \<and> base_url outside_cfg = ''https://shop.test/products/''
   \<and> Links ''https://shop.test/products/''
       [''https://shop.test/products/'', ''https://shop.test/products/1'']
     \<in> set (events (crawl_with_scrapingbee catalog_env outside_cfg))
   \<and> fetched (events (crawl_with_scrapingbee catalog_env outside_cfg)) =
       [''https://shop.test/products/'']
   \<and> crawl catalog_env outside_cfg [0] = Returns (Some [])
   \<and> fetched (trace (the (exec catalog_env outside_cfg [0] (init_pool outside_cfg)))) = []"
  by code_simp

section \<open>C6: the retry policy\<close>

text \<open>
  C6 holds for the retry loop of \<open>crawl_with_scrapingbee\<close> and fails for
  \<open>fetch_html_with_scrapingbee\<close>: there the exception for a status other than 503 is
  raised inside the \<open>try\<close>, so the \<open>except\<close> clause catches it and the loop retries. On
  a URL that answers 404 the function makes three requests, where the crawl's loop
  makes one.
\<close>

theorem C6_other_status_is_retried:
  "fetch_html_with_scrapingbee dead_env ''https://shop.test/x'' 3 [] =
     (Raises, [Request ''https://shop.test/x'' 2, Request ''https://shop.test/x'' 1,
               Request ''https://shop.test/x'' 0])
   \<and> client_get dead_env 0 ''https://shop.test/x'' 0 = Returns (page 404 [])
   \<and> snd (retry_loop dead_env ''https://shop.test/x'' 0 max_retries None []) =
       [Request ''https://shop.test/x'' 0]"
  by code_simp

section \<open>C7: a missing API key\<close>

text \<open>
  C7, as the spec states it, fails: only \<open>run\<close> stops before the crawl. \<open>_crawl_page\<close>
  raises the error inside its own \<open>try\<close> and returns two empty sets, and \<open>fetch\<close>
  returns \<open>None\<close>: both crawls take the missing key for the failure of one page, mark
  the seed as visited and return an empty result in the normal way.
\<close>

theorem C7_counterexample:
  "falsy (api_key no_key_env)
   \<and> crawl_page_body no_key_env shop_cfg ''https://shop.test/'' [] = (Raises, [])
   \<and> crawl_page no_key_env shop_cfg ''https://shop.test/'' [] = (([], []), [])
   \<and> crawl_batched 2 no_key_env shop_cfg =
       Some \<lparr>visited = [''https://shop.test/''], to_visit = [], product_urls = [],
             events = [Seen ''https://shop.test/'']\<rparr>
   \<and> fetch no_key_env ''https://shop.test/'' [] = (None, [])
   \<and> crawl no_key_env shop_cfg [0] = Returns (Some [])"
  by code_simp

lemma crawl_page_no_key:
  "falsy (api_key env) \<Longrightarrow> crawl_page env cfg url es = (([], []), es)"
  by (simp add: crawl_page_def crawl_page_body_def)

lemma gather_no_key:
  "falsy (api_key env) \<Longrightarrow> gather env cfg tasks es = (replicate (length tasks) ([], []), es)"
  by (induction tasks arbitrary: es) (simp_all add: crawl_page_no_key)

lemma add_results_empty: "add_results cfg (replicate n ([], [])) st = st"
  by (induction n) simp_all

lemma mark_batch_requested:
  "requested (events (snd (mark_batch batch st))) = requested (events st)
   \<and> product_urls (snd (mark_batch batch st)) = product_urls st"
proof (induction batch arbitrary: st)
  case Nil
  then show ?case by simp
next
  case (Cons a batch)
  show ?case
    using Cons.IH [of st] Cons.IH [of "mark_visited a st"]
    by (auto simp: mark_visited_def split: prod.splits)
qed

lemma batch_round_no_key:
  assumes "falsy (api_key env)"
  shows "requested (events (batch_round env cfg st)) = requested (events st)
       \<and> product_urls (batch_round env cfg st) = product_urls st"
proof -
  let ?batch = "py_take (concurrency cfg) (to_visit st)"
  let ?st1 = "st\<lparr>to_visit := filter (\<lambda>u. u \<notin> set ?batch) (to_visit st)\<rparr>"
  obtain tasks st2 where m: "mark_batch ?batch ?st1 = (tasks, st2)" by fastforce
  have "batch_round env cfg st = st2"
    using m by (simp add: batch_round_def Let_def gather_no_key [OF assms] add_results_empty)
  moreover have "requested (events st2) = requested (events st) \<and> product_urls st2 = product_urls st"
    using mark_batch_requested [of ?batch ?st1] m by simp
  ultimately show ?thesis by simp
qed

lemma crawl_batched_loop_no_key:
  assumes "falsy (api_key env)" and "crawl_batched_loop n env cfg st = Some st'"
  shows "requested (events st') = requested (events st) \<and> product_urls st' = product_urls st"
  using assms(2)
proof (induction n arbitrary: st)
  case 0
  then show ?case by simp
next
  case (Suc n)
  show ?case
  proof (cases "to_visit st \<noteq> [] \<and> int (length (visited st)) < max_pages cfg")
    case True
    then have "crawl_batched_loop n env cfg (batch_round env cfg st) = Some st'"
      using Suc.prems by simp
    then show ?thesis using Suc.IH batch_round_no_key [OF assms(1), of cfg st] by simp
  next
    case False
    then show ?thesis using Suc.prems by auto
  qed
qed

lemma no_key_start_fetch:
  assumes "falsy (api_key env)" and "requested (trace s) = []" "product_candidates s = []"
    "\<forall>u. Fetching u \<notin> set (workers s)"
  shows "no_key_inv (start_fetch env cfg w url s)"
proof (cases "permits s = 0")
  case True
  have "Fetching u \<notin> set ((workers s)[w := Blocked url])" for u
    using assms(4) by (intro not_in_update) simp_all
  then show ?thesis using True assms by (simp add: start_fetch_def no_key_inv_def)
next
  case False
  have nf: "Fetching u \<notin> set ((workers s)[w := leave_or_wait cfg s])" for u
    using assms(4) by (intro not_in_update) (simp_all add: leave_or_wait_def)
  have "start_fetch env cfg w url s =
          s\<lparr>unfinished_tasks := unfinished_tasks s - 1,
            workers := (workers s)[w := leave_or_wait cfg s]\<rparr>"
    using False assms(1) by (simp add: start_fetch_def after_fetch_None page_links_def)
  then show ?thesis using assms nf by (simp add: no_key_inv_def)
qed

lemma no_key_step:
  assumes "falsy (api_key env)" and "no_key_inv s" and "worker_step env cfg w s = Some s'"
  shows "no_key_inv s'"
  using assms(3)
proof (cases rule: worker_step_cases)
  case (skip_seen url rest)
  then show ?thesis using assms(2) by (simp add: no_key_inv_def)
next
  case (skip_domain url rest)
  then show ?thesis using assms(2) by (simp add: no_key_inv_def)
next
  case (start url rest)
  then show ?thesis using assms(2) no_key_start_fetch [OF assms(1)]
    by (simp add: no_key_inv_def)
next
  case (unblock url)
  then show ?thesis using assms(2) no_key_start_fetch [OF assms(1)]
    by (simp add: no_key_inv_def)
next
  case (complete url)
  then have "Fetching url \<in> set (workers s)" by (metis nth_mem)
  then show ?thesis using assms(2) by (simp add: no_key_inv_def)
qed

lemma no_key_exec:
  assumes "falsy (api_key env)" and "exec env cfg sched (init_pool cfg) = Some s"
  shows "no_key_inv s"
  using assms(2)
proof (rule exec_invariant [where P = no_key_inv])
  show "no_key_inv (init_pool cfg)" by (simp add: no_key_inv_def init_pool_def)
next
  fix w s s'
  assume "no_key_inv s" "worker_step env cfg w s = Some s'"
  then show "no_key_inv s'" using no_key_step [OF assms(1)] by blast
qed

lemma batch_rounds_no_key:
  assumes "falsy (api_key env)"
  shows "requested (events ((batch_round env cfg ^^ n) st)) = requested (events st)"
  by (induction n) (simp_all add: batch_round_no_key [OF assms])

lemma crawl_batched_no_key:
  assumes "falsy (api_key env)" "0 < concurrency cfg" "0 < max_pages cfg"
  shows "crawl_batched (Suc (Suc n)) env cfg =
           Some \<lparr>visited = [base_url cfg], to_visit = [], product_urls = [],
                 events = [Seen (base_url cfg)]\<rparr>"
proof -
  have t: "py_take (concurrency cfg) [base_url cfg] = [base_url cfg]"
    using assms(2) by (simp add: py_take_def nat_eq_iff take_Suc_conv_app_nth)
  have "batch_round env cfg (init_state cfg) =
          \<lparr>visited = [base_url cfg], to_visit = [], product_urls = [],
            events = [Seen (base_url cfg)]\<rparr>"
    by (simp add: batch_round_def init_state_def t Let_def mark_visited_def
          crawl_page_no_key [OF assms(1)])
  then show ?thesis
    using assms(3) by (simp add: crawl_batched_def init_state_def)
qed

lemma no_key_first_step:
  assumes "falsy (api_key env)" "w < nat (concurrency cfg)"
  shows "\<exists>s. worker_step env cfg w (init_pool cfg) = Some s \<and> unfinished_tasks s = 0
             \<and> seen s = [base_url cfg] \<and> product_candidates s = []"
proof -
  have p: "nat (concurrency cfg) \<noteq> 0" using assms(2) by simp
  show ?thesis
  proof (cases "is_same_domain env (base_url cfg) (allowed_domains cfg)")
    case False
    then show ?thesis
      using assms(2) by (simp add: worker_step_def dequeue_def init_pool_def)
  next
    case True
    then show ?thesis
      using assms p
      by (simp add: worker_step_def dequeue_def init_pool_def start_fetch_def after_fetch_def
            end_iteration_eq)
  qed
qed

lemma no_key_run:
  assumes "falsy (api_key env)" "exec env cfg sched (init_pool cfg) = Some s" "sched \<noteq> []"
  shows "length sched = 1 \<and> unfinished_tasks s = 0 \<and> 0 \<le> concurrency cfg"
proof -
  obtain w ws where sched: "sched = w # ws" using assms(3) by (cases sched) auto
  then obtain s1 where s1: "worker_step env cfg w (init_pool cfg) = Some s1"
      "exec env cfg ws s1 = Some s"
    using assms(2) by (auto split: option.splits)
  have w: "w < nat (concurrency cfg)"
    using s1(1) by (auto simp: worker_step_def init_pool_def split: if_splits)
  then have u: "unfinished_tasks s1 = 0"
    using no_key_first_step [OF assms(1), of w cfg] s1(1) by auto
  have e1: "exec env cfg [w] (init_pool cfg) = Some s1" using s1(1) by simp
  have ws: "ws = []"
  proof (cases ws)
    case Nil
    then show ?thesis .
  next
    case (Cons v vs)
    then show ?thesis using s1(2) joined_is_final [OF e1 u, of v] by simp
  qed
  then show ?thesis using sched s1(2) u w by auto
qed

text \<open>
  C7, amended: when the API key is missing (or empty), no request is ever made. \<open>run\<close>
  stops before the crawl starts: it returns (or raises, on a base URL that \<open>urlparse\<close>
  rejects). \<open>_crawl_page\<close> and \<open>fetch\<close> contain the missing key as the failure of one
  page (two empty sets, \<open>None\<close>), so that the batched crawl and the worker crawl are not
  aborted. With batches of at least one URL and a budget of at least one page, the
  batched crawl marks the seed as visited and returns an empty set after its first
  round. The worker crawl returns an empty set after the first step of any of its
  workers, with the seed in \<open>seen\<close>; no schedule has a second step.
\<close>

theorem C7_missing_key:
  assumes "falsy (api_key env)"
  shows "(run env cfg domains = (Raises, []) \<or> run env cfg domains = (Returns Key_missing, []))
       \<and> crawl_page env cfg url es = (([], []), es)
       \<and> fetch env url es = (None, es)
       \<and> requested (events ((batch_round env cfg ^^ n) (init_state cfg))) = []
       \<and> (0 < concurrency cfg \<and> 0 < max_pages cfg \<longrightarrow>
            crawl_batched (Suc (Suc n)) env cfg =
              Some \<lparr>visited = [base_url cfg], to_visit = [], product_urls = [],
                    events = [Seen (base_url cfg)]\<rparr>)
       \<and> (exec env cfg sched (init_pool cfg) = Some s \<longrightarrow>
            requested (trace s) = [] \<and> product_candidates s = [])
       \<and> (w < nat (concurrency cfg) \<longrightarrow>
            crawl env cfg [w] = Returns (Some [])
            \<and> map_option seen (exec env cfg [w] (init_pool cfg)) = Some [base_url cfg])
       \<and> (exec env cfg sched (init_pool cfg) = Some s \<and> sched \<noteq> [] \<longrightarrow>
            length sched = 1 \<and> crawl env cfg sched = Returns (Some []))"
proof -
  have r: "run env cfg domains = (Raises, []) \<or> run env cfg domains = (Returns Key_missing, [])"
    using assms by (cases "urlparse (base_url cfg)") (simp_all add: run_def)
  have a: "requested (events ((batch_round env cfg ^^ n) (init_state cfg))) = []"
    using batch_rounds_no_key [OF assms, where cfg = cfg and n = n and st = "init_state cfg"]
    by (simp add: init_state_def)
  have b: "requested (trace s) = [] \<and> product_candidates s = []"
    if "exec env cfg sched (init_pool cfg) = Some s"
    using no_key_exec [OF assms that] by (simp add: no_key_inv_def)
  have c: "crawl env cfg [w] = Returns (Some [])
           \<and> map_option seen (exec env cfg [w] (init_pool cfg)) = Some [base_url cfg]"
    if lt: "w < nat (concurrency cfg)"
  proof -
    obtain s1 where "worker_step env cfg w (init_pool cfg) = Some s1" "unfinished_tasks s1 = 0"
        "seen s1 = [base_url cfg]" "product_candidates s1 = []"
      using no_key_first_step [OF assms lt] by blast
    then show ?thesis using lt by (simp add: crawl_def)
  qed
  have d: "length sched = 1 \<and> crawl env cfg sched = Returns (Some [])"
    if "exec env cfg sched (init_pool cfg) = Some s" "sched \<noteq> []"
    using no_key_run [OF assms that] b [OF that(1)] that(1) by (simp add: crawl_def)
  show ?thesis
    using assms r a b c d crawl_batched_no_key [OF assms, where cfg = cfg and n = n]
    by (simp add: crawl_page_no_key fetch_def)
qed

theorem C7_missing_key_witness:
  "falsy (api_key no_key_env)
   \<and> run no_key_env shop_cfg None = (Returns Key_missing, [])
   \<and> 0 < concurrency shop_cfg \<and> 0 < max_pages shop_cfg
   \<and> crawl_batched 2 no_key_env shop_cfg =
       Some \<lparr>visited = [''https://shop.test/''], to_visit = [], product_urls = [],
             events = [Seen ''https://shop.test/'']\<rparr>
   \<and> (0::nat) < nat (concurrency shop_cfg)
   \<and> exec no_key_env shop_cfg [0] (init_pool shop_cfg) \<noteq> None
   \<and> requested (trace (the (exec no_key_env shop_cfg [0] (init_pool shop_cfg)))) = []
   \<and> seen (the (exec no_key_env shop_cfg [0] (init_pool shop_cfg))) = [''https://shop.test/'']
   \<and> crawl no_key_env shop_cfg [0] = Returns (Some [])
   \<and> exec no_key_env shop_cfg [0, 0] (init_pool shop_cfg) = None"
proof -
  have k: "falsy (api_key no_key_env)" by code_simp
  have r: "run no_key_env shop_cfg None = (Returns Key_missing, [])" by code_simp
  have c: "0 < concurrency shop_cfg \<and> 0 < max_pages shop_cfg" by code_simp
  have w: "(0::nat) < nat (concurrency shop_cfg)" by code_simp
  have b: "base_url shop_cfg = ''https://shop.test/''" by code_simp
  have "exec no_key_env shop_cfg [0] (init_pool shop_cfg) \<noteq> None" by code_simp
  then obtain s where s: "exec no_key_env shop_cfg [0] (init_pool shop_cfg) = Some s" by blast
  have n: "exec no_key_env shop_cfg [0, 0] (init_pool shop_cfg) = None" by code_simp
  show ?thesis
    using k r c w b s n
      C7_missing_key [OF k, of shop_cfg None _ _ 0 "[0]" s 0]
    by (simp add: numeral_2_eq_2)
qed

section \<open>C8: failures are contained\<close>

text \<open>
  C8: the failure of a page never leaves the crawl. In \<open>crawl_with_scrapingbee\<close> a page
  whose fetch fails (every attempt raised, the last response is an error, or the
  content cannot be decoded) changes nothing but the trace; a parser that raises gives
  no links; the loop goes on with the URLs that remain; and the products found so far
  are part of the result. \<open>_crawl_page\<close> turns every exception of its body into two empty
  sets.
\<close>

theorem C8_failures_contained:
  "(page_failed env url (events st) \<longrightarrow>
      visit_page env cfg url st = st\<lparr>events := page_events env url (events st)\<rparr>)
   \<and> (find_anchors env html = Raises \<longrightarrow> extract_links env base html = [])
   \<and> (to_visit st \<noteq> [] \<and> int (length (visited st)) < max_pages cfg
        \<and> pop_url env k (to_visit st) \<notin> set (visited st) \<longrightarrow>
      crawl_loop env cfg k st =
      crawl_loop env cfg (Suc k)
        (visit_page env cfg (pop_url env k (to_visit st))
           (mark_visited (pop_url env k (to_visit st))
              (st\<lparr>to_visit := removeAll (pop_url env k (to_visit st)) (to_visit st)\<rparr>))))
   \<and> set (product_urls st) \<subseteq> set (product_urls (crawl_loop env cfg k st))
   \<and> (fst (crawl_page_body env cfg url es) = Raises \<longrightarrow>
      fst (crawl_page env cfg url es) = ([], []))"
  using visit_page_failed [of env url st cfg] extract_links_failed [of env html base]
    crawl_loop_step [of st cfg env k] crawl_loop_product_urls [of st env cfg k]
    crawl_page_contains [of env cfg url es]
  by blast

theorem C8_failures_contained_witness:
  "page_failed flaky_env ''https://shop.test/product/1'' (events (init_state flaky_cfg))
   \<and> visit_page flaky_env flaky_cfg ''https://shop.test/product/1'' (init_state flaky_cfg) =
       (init_state flaky_cfg)
         \<lparr>events := page_events flaky_env ''https://shop.test/product/1''
                      (events (init_state flaky_cfg))\<rparr>
   \<and> find_anchors flaky_env ''<a'' = Raises
   \<and> extract_links flaky_env ''https://shop.test/'' ''<a'' = []
   \<and> fst (crawl_page_body flaky_env flaky_cfg ''https://shop.test/product/1'' []) = Raises
   \<and> fst (crawl_page flaky_env flaky_cfg ''https://shop.test/product/1'' []) = ([], [])
   \<and> product_urls (crawl_with_scrapingbee flaky_env shop_cfg) =
       [''https://shop.test/product/1'', ''https://shop.test/product/2'']"
proof -
  have a: "page_failed flaky_env ''https://shop.test/product/1'' (events (init_state flaky_cfg))"
    by code_simp
  have b: "find_anchors flaky_env ''<a'' = Raises" by code_simp
  have c: "fst (crawl_page_body flaky_env flaky_cfg ''https://shop.test/product/1'' []) = Raises"
    by code_simp
  have d: "product_urls (crawl_with_scrapingbee flaky_env shop_cfg) =
       [''https://shop.test/product/1'', ''https://shop.test/product/2'']"
    by code_simp
  show ?thesis
    using a b c d
      C8_failures_contained [of flaky_env "''https://shop.test/product/1''"
        "init_state flaky_cfg" flaky_cfg "''<a''" "''https://shop.test/''" 0 "[]"]
    by blast
qed

section \<open>C9: drain termination\<close>


section \<open>C10: candidates are recorded at discovery\<close>

text \<open>
  C10, as stated, fails in the worker crawl for a link to the seed: the worker skips
  every link that is already in \<open>seen\<close>, and the seed is in \<open>seen\<close> before any page is
  read, so a seed that matches the keywords is found as a link of its own page and
  never recorded. And it fails in \<open>crawl_with_scrapingbee\<close> for the links of a page on
  which some link is rejected by \<open>urlparse\<close>: the filter loop raises before any link of
  the page is recorded, and the page counts as failed.
\<close>

theorem C10_counterexample:
  "exec catalog_env catalog_cfg [0, 0, 0, 0] (init_pool catalog_cfg) \<noteq> None
   \<and> Links ''https://shop.test/products/''
       [''https://shop.test/products/'', ''https://shop.test/products/1'']
     \<in> set (trace (the (exec catalog_env catalog_cfg [0, 0, 0, 0] (init_pool catalog_cfg))))
   \<and> is_same_domain catalog_env ''https://shop.test/products/'' (allowed_domains catalog_cfg)
   \<and> looks_like_product_url ''https://shop.test/products/'' (product_url_keywords catalog_cfg)
       = Returns True
   \<and> crawl catalog_env catalog_cfg [0, 0, 0, 0] = Returns (Some [''https://shop.test/products/1''])
   \<and> Links ''https://shop.test/''
       [''https://shop.test/product/1'', ''https://shop.test[/product/2'']
     \<in> set (events (crawl_with_scrapingbee brittle_env shop_cfg))
   \<and> passes_filter (allowed_domains shop_cfg) ''https://shop.test/product/1''
   \<and> is_product_url ''https://shop.test/product/1'' (product_url_keywords shop_cfg)
   \<and> urlparse ''https://shop.test[/product/2'' = Raises
   \<and> product_urls (crawl_with_scrapingbee brittle_env shop_cfg) = []"
  by code_simp

text \<open>
  C10, amended: a link of a page whose links were processed without an exception, that
  passes the domain filter and matches the keyword heuristic, is in the candidate set
  from then on and in the returned result, whether or not the link itself is ever
  fetched and whether or not that fetch succeeds; in the worker crawl this holds for
  every such link but the seed URL. (In \<open>crawl_with_scrapingbee\<close> the links are
  processed without an exception when the filter loop returns; in the worker crawl,
  when \<open>urlparse\<close> rejects no link of the page that is in the allowed domains.)
\<close>

theorem C10_candidates_recorded_at_discovery:
  "(Links p ls \<in> set (events (crawl_with_scrapingbee env cfg))
      \<and> filter_links (allowed_domains cfg) ls [] = Returns fl \<and> l \<in> set fl
      \<and> is_product_url l (product_url_keywords cfg) \<longrightarrow>
      l \<in> set (product_urls (crawl_with_scrapingbee env cfg)))
   \<and> (exec env cfg sched (init_pool cfg) = Some s \<and> Links p ls \<in> set (trace s)
      \<and> safe_links env cfg ls \<and> l \<in> set ls
      \<and> is_same_domain env l (allowed_domains cfg)
      \<and> looks_like_product_url l (product_url_keywords cfg) = Returns True
      \<and> l \<noteq> base_url cfg \<longrightarrow>
      l \<in> set (product_candidates s)
      \<and> (\<forall>later result. crawl env cfg (sched @ later) = Returns (Some result) \<longrightarrow>
            l \<in> set result))"
proof -
  have a: "links_inv cfg (crawl_with_scrapingbee env cfg)" by (rule links_inv_crawl)
  have b: "l \<in> set (product_candidates s')"
    if "exec env cfg sched' (init_pool cfg) = Some s'" "Links p ls \<in> set (trace s')"
      "safe_links env cfg ls" "l \<in> set ls" "is_same_domain env l (allowed_domains cfg)"
      "looks_like_product_url l (product_url_keywords cfg) = Returns True" "l \<noteq> base_url cfg"
    for sched' s'
  proof -
    have "cand_inv env cfg s'" using that(1) by (rule cand_inv_exec)
    then show ?thesis
      using that(2,3,4,5,6,7) unfolding cand_inv_def matches_def by blast
  qed
  have c: "l \<in> set result"
    if e: "exec env cfg sched (init_pool cfg) = Some s" and t: "Links p ls \<in> set (trace s)"
      and h: "safe_links env cfg ls" "l \<in> set ls" "is_same_domain env l (allowed_domains cfg)"
        "looks_like_product_url l (product_url_keywords cfg) = Returns True" "l \<noteq> base_url cfg"
      and r: "crawl env cfg (sched @ later) = Returns (Some result)"
    for later result
  proof -
    obtain s' where s': "exec env cfg (sched @ later) (init_pool cfg) = Some s'"
        "result = product_candidates s'"
      using r by (auto simp: crawl_def split: if_splits option.splits)
    have "exec env cfg later s = Some s'" using s'(1) e by (simp add: exec_append)
    then have "Links p ls \<in> set (trace s')" using exec_grows t by blast
    then show ?thesis using b [OF s'(1) _ h] s'(2) by simp
  qed
  show ?thesis
    using a b c unfolding links_inv_def by blast
qed

theorem C10_candidates_recorded_at_discovery_witness:
  "Links ''https://shop.test/''
       [''https://shop.test/product/1'', ''https://shop.test/about'',
        ''https://shop.test/product/2'', ''https://other.test/product/9'']
     \<in> set (events (crawl_with_scrapingbee flaky_env shop_cfg))
   \<and> filter_links (allowed_domains shop_cfg)
       [''https://shop.test/product/1'', ''https://shop.test/about'',
        ''https://shop.test/product/2'', ''https://other.test/product/9''] [] =
       Returns [''https://shop.test/product/1'', ''https://shop.test/about'',
                ''https://shop.test/product/2'']
   \<and> is_product_url ''https://shop.test/product/1'' (product_url_keywords shop_cfg)
   \<and> page_failed flaky_env ''https://shop.test/product/1'' []
   \<and> ''https://shop.test/product/1'' \<in> set (product_urls (crawl_with_scrapingbee flaky_env shop_cfg))
   \<and> Links ''https://shop.test/''
       [''https://shop.test/product/1'', ''https://shop.test/about'',
        ''https://shop.test/product/2'', ''https://other.test/product/9'']
     \<in> set (events (crawl_with_scrapingbee shop_env pair_cfg))
   \<and> is_product_url ''https://shop.test/product/2'' (product_url_keywords pair_cfg)
   \<and> ''https://shop.test/product/2''
     \<notin> set (requested (events (crawl_with_scrapingbee shop_env pair_cfg)))
   \<and> ''https://shop.test/product/2'' \<in> set (product_urls (crawl_with_scrapingbee shop_env pair_cfg))
   \<and> exec tiny_env shop_cfg [0, 0] (init_pool shop_cfg) \<noteq> None
   \<and> Links ''https://shop.test/'' [''https://shop.test/product/1'']
     \<in> set (trace (the (exec tiny_env shop_cfg [0, 0] (init_pool shop_cfg))))
   \<and> safe_links tiny_env shop_cfg [''https://shop.test/product/1'']
   \<and> is_same_domain tiny_env ''https://shop.test/product/1'' (allowed_domains shop_cfg)
   \<and> looks_like_product_url ''https://shop.test/product/1'' (product_url_keywords shop_cfg)
       = Returns True
   \<and> ''https://shop.test/product/1'' \<noteq> base_url shop_cfg
   \<and> ''https://shop.test/product/1''
     \<notin> set (requested (trace (the (exec tiny_env shop_cfg [0, 0] (init_pool shop_cfg)))))
   \<and> ''https://shop.test/product/1''
     \<in> set (product_candidates (the (exec tiny_env shop_cfg [0, 0] (init_pool shop_cfg))))
   \<and> fetch_result tiny_env 3 ''https://shop.test/product/1'' = None
   \<and> crawl tiny_env shop_cfg ([0, 0] @ [0, 0]) = Returns (Some [''https://shop.test/product/1''])"
proof -
  let ?ls = "[''https://shop.test/product/1'', ''https://shop.test/about'',
        ''https://shop.test/product/2'', ''https://other.test/product/9'']"
  let ?fl = "[''https://shop.test/product/1'', ''https://shop.test/about'',
        ''https://shop.test/product/2'']"
  have a: "Links ''https://shop.test/'' ?ls \<in> set (events (crawl_with_scrapingbee flaky_env shop_cfg))"
    by code_simp
  have b: "filter_links (allowed_domains shop_cfg) ?ls [] = Returns ?fl" by code_simp
  have b': "filter_links (allowed_domains pair_cfg) ?ls [] = Returns ?fl" by code_simp
  have c: "is_product_url ''https://shop.test/product/1'' (product_url_keywords shop_cfg)"
    by code_simp
  have d: "page_failed flaky_env ''https://shop.test/product/1'' []" by code_simp
  have e: "Links ''https://shop.test/'' ?ls \<in> set (events (crawl_with_scrapingbee shop_env pair_cfg))"
    by code_simp
  have f: "is_product_url ''https://shop.test/product/2'' (product_url_keywords pair_cfg)"
    by code_simp
  have g: "''https://shop.test/product/2''
     \<notin> set (requested (events (crawl_with_scrapingbee shop_env pair_cfg)))"
    by code_simp
  have "exec tiny_env shop_cfg [0, 0] (init_pool shop_cfg) \<noteq> None" by code_simp
  then obtain s where s: "exec tiny_env shop_cfg [0, 0] (init_pool shop_cfg) = Some s" by blast
  have h: "Links ''https://shop.test/'' [''https://shop.test/product/1'']
     \<in> set (trace (the (exec tiny_env shop_cfg [0, 0] (init_pool shop_cfg))))"
    by code_simp
  have i: "safe_links tiny_env shop_cfg [''https://shop.test/product/1'']" by code_simp
  have j: "is_same_domain tiny_env ''https://shop.test/product/1'' (allowed_domains shop_cfg)"
    by code_simp
  have k: "looks_like_product_url ''https://shop.test/product/1'' (product_url_keywords shop_cfg)
       = Returns True"
    by code_simp
  have m: "''https://shop.test/product/1'' \<noteq> base_url shop_cfg" by code_simp
  have n: "''https://shop.test/product/1''
     \<notin> set (requested (trace (the (exec tiny_env shop_cfg [0, 0] (init_pool shop_cfg)))))"
    by code_simp
  have o: "fetch_result tiny_env 3 ''https://shop.test/product/1'' = None" by code_simp
  have q: "crawl tiny_env shop_cfg ([0, 0] @ [0, 0]) = Returns (Some [''https://shop.test/product/1''])"
    by code_simp
  have l1: "''https://shop.test/product/1'' \<in> set ?fl" by simp
  have l2: "''https://shop.test/product/2'' \<in> set ?fl" by simp
  have l3: "''https://shop.test/product/1'' \<in> set [''https://shop.test/product/1'']" by simp
  note t1 = C10_candidates_recorded_at_discovery [of "''https://shop.test/''" ?ls flaky_env shop_cfg
        ?fl "''https://shop.test/product/1''"]
  note t2 = C10_candidates_recorded_at_discovery [of "''https://shop.test/''" ?ls shop_env pair_cfg
        ?fl "''https://shop.test/product/2''"]
  note t3 = C10_candidates_recorded_at_discovery [of "''https://shop.test/''"
        "[''https://shop.test/product/1'']" tiny_env shop_cfg _ "''https://shop.test/product/1''"
        "[0, 0]" s]
  have r1: "''https://shop.test/product/1'' \<in> set (product_urls (crawl_with_scrapingbee flaky_env shop_cfg))"
    using t1 a b c l1 by blast
  have r2: "''https://shop.test/product/2'' \<in> set (product_urls (crawl_with_scrapingbee shop_env pair_cfg))"
    using t2 e b' f l2 by blast
  have r3: "''https://shop.test/product/1'' \<in> set (product_candidates s)
            \<and> (\<forall>later result. crawl tiny_env shop_cfg ([0, 0] @ later) = Returns (Some result) \<longrightarrow>
                  ''https://shop.test/product/1'' \<in> set result)"
    using t3 s h i j k m l3 by simp
  show ?thesis
    using a b c d r1 e f g r2 s h i j k m n r3 o q by simp
qed

end
